theory Spec2Isabelle
  imports Main "HOL-Library.Word"
begin

unbundle bit_operations_syntax

chapter \<open>The model\<close>

section \<open>Metric-safe strings: \<open>graphite_safe\<close>\<close>

text \<open>
  \<open>graphite_safe\<close> (bvc_viewsender.c, bvc_archiver.c and the performance monitor
  consumer carry the same function) walks a C buffer in place until the first NUL byte.
  The buffer is a list of bytes; the walk stops at the first NUL and leaves it and every
  byte after it as it was. The two tests of the loop body run one after the other, as in
  the source. A list with no NUL models a buffer whose terminator lies beyond it.
\<close>

definition graphite_char :: "char \<Rightarrow> char" where
  "graphite_char c =
     (let c1 = (if c = CHR ''.'' then CHR ''_'' else c);
          c2 = (if c1 = CHR ''*'' then CHR ''-'' else c1)
      in c2)"

fun graphite_walk :: "char list \<Rightarrow> char list" where
  "graphite_walk [] = []"
| "graphite_walk (c # cs) =
     (if c = CHR 0x00 then c # cs else graphite_char c # graphite_walk cs)"

text \<open>The pointer argument: \<open>None\<close> is the NULL pointer, returned as it is.\<close>

definition graphite_safe :: "char list option \<Rightarrow> char list option" where
  "graphite_safe p = (case p of None \<Rightarrow> None | Some buf \<Rightarrow> Some (graphite_walk buf))"

section \<open>The Kafka client: draining the outbound queue on shutdown\<close>

text \<open>
  \<open>bgpview_io_kafka_destroy\<close> (bgpview_io_kafka.c). The connection handle belongs to
  librdkafka; its state is a type parameter \<open>'c\<close>, \<open>outq_len\<close> stands for
  \<open>rd_kafka_outq_len\<close> and \<open>poll\<close> for \<open>rd_kafka_poll\<close> (connection, timeout in
  milliseconds), which returns the connection after the call. The loop tests the queue
  length first and the counter second; the model records the timeout of every poll it
  makes, in order.
\<close>

function drain_loop ::
  "('c \<Rightarrow> int) \<Rightarrow> ('c \<Rightarrow> int \<Rightarrow> 'c) \<Rightarrow> 'c \<Rightarrow> int \<Rightarrow> int list \<Rightarrow> 'c \<times> int list" where
  "drain_loop outq_len poll conn drain_wait_cnt polls =
     (if outq_len conn > 0 \<and> drain_wait_cnt > 0
      then drain_loop outq_len poll (poll conn 5000) (drain_wait_cnt - 1) (polls @ [5000])
      else (conn, polls))"
  by pat_completeness auto
termination
  by (relation "measure (\<lambda>(outq_len, poll, conn, cnt, polls). nat cnt)") auto

declare drain_loop.simps [simp del]

datatype kafka_mode = MODE_PRODUCER | MODE_DIRECT_CONSUMER | MODE_GLOBAL_CONSUMER

record 'c kafka_client =
  rdk_conn :: "'c option"
  mode :: kafka_mode

text \<open>
  The part of \<open>bgpview_io_kafka_destroy\<close> up to the end of the drain loop: a NULL client
  and a client without a connection poll nothing; otherwise the loop starts with
  \<open>drain_wait_cnt = 12\<close>. The result is the list of poll timeouts.
\<close>

definition bgpview_io_kafka_destroy_drain ::
  "('c \<Rightarrow> int) \<Rightarrow> ('c \<Rightarrow> int \<Rightarrow> 'c) \<Rightarrow> 'c kafka_client option \<Rightarrow> int list" where
  "bgpview_io_kafka_destroy_drain outq_len poll client =
     (case client of
        None \<Rightarrow> []
      | Some cl \<Rightarrow>
          (case rdk_conn cl of
             None \<Rightarrow> []
           | Some conn \<Rightarrow> snd (drain_loop outq_len poll conn 12 [])))"

section \<open>The view sender\<close>

text \<open>
  The consumer state of bvc_viewsender.c, with the fields the decisions below read.
  \<open>filter_ff_v4cnt\<close>, \<open>filter_ff_v6cnt\<close> and \<open>sync_interval\<close> are C \<open>int\<close>s;
  \<open>parent_view\<close> is a pointer, \<open>None\<close> for NULL. The view type is a parameter here.
\<close>

record 'v viewsender_state =
  filter_ff_v4cnt :: int
  filter_ff_v6cnt :: int
  sync_interval :: int
  parent_view :: "'v option"

definition SECONDS_BETWEEN_SYNC :: int where "SECONDS_BETWEEN_SYNC = 3600"
definition FILTER_FF_V4CNT_DEFAULT :: int where "FILTER_FF_V4CNT_DEFAULT = 400000"
definition FILTER_FF_V6CNT_DEFAULT :: int where "FILTER_FF_V6CNT_DEFAULT = 10000"

text \<open>The state \<open>bvc_viewsender_init\<close> sets up before it parses the arguments.\<close>

definition viewsender_init_state :: "'v viewsender_state" where
  "viewsender_init_state =
     \<lparr> filter_ff_v4cnt = FILTER_FF_V4CNT_DEFAULT,
       filter_ff_v6cnt = FILTER_FF_V6CNT_DEFAULT,
       sync_interval = SECONDS_BETWEEN_SYNC,
       parent_view = None \<rparr>"

datatype filter_type = FILTER_PEER | FILTER_PFX | FILTER_PFX_PEER

text \<open>
  \<open>filter_ff\<close>: the callback the sender hands to the IO module. The iterator is
  represented by what the callback reads from it: the number of active IPv4 and of
  active IPv6 prefixes of the peer the iterator stands on. The result is C's value of
  the disjunction, 1 (keep) or 0 (drop).
\<close>

definition filter_ff :: "'v viewsender_state \<Rightarrow> int \<Rightarrow> int \<Rightarrow> filter_type \<Rightarrow> int" where
  "filter_ff st v4_pfx_cnt v6_pfx_cnt type =
     (if type = FILTER_PFX \<or>
         (v4_pfx_cnt \<ge> filter_ff_v4cnt st \<or> v6_pfx_cnt \<ge> filter_ff_v6cnt st)
      then 1 else 0)"

text \<open>
  \<open>bvc_viewsender_process_view\<close>, the Kafka branch. \<open>view_time\<close> is a \<open>uint32_t\<close>;
  in \<open>view_time / state->sync_interval\<close> the \<open>int\<close> is converted to \<open>unsigned\<close>, and a
  zero divisor traps. The call to \<open>bgpview_io_kafka_send_view\<close> is recorded with the
  parent it was given (\<open>None\<close> for a sync frame); \<open>send_ok\<close> says whether it returned 0.
  After a successful send the parent view becomes a copy of the view. Allocation
  failures of \<open>bgpview_dup\<close> and \<open>bgpview_copy\<close> are left out.
\<close>

datatype 'v kafka_send = Send_view 'v "'v option"

datatype pv_error = Division_by_zero

definition sync_interval_u32 :: "'v viewsender_state \<Rightarrow> 32 word" where
  "sync_interval_u32 st = word_of_int (sync_interval st)"

definition bvc_viewsender_process_view ::
  "('v \<Rightarrow> 32 word) \<Rightarrow> ('v kafka_send \<Rightarrow> bool) \<Rightarrow> 'v viewsender_state \<Rightarrow> 'v \<Rightarrow>
     pv_error + (int \<times> 'v kafka_send list \<times> 'v viewsender_state)" where
  "bvc_viewsender_process_view bgpview_get_time send_ok st view =
     (let view_time = bgpview_get_time view in
      if sync_interval_u32 st = 0 then Inl Division_by_zero
      else
        let sync_time = (view_time div sync_interval_u32 st) * sync_interval_u32 st in
        if (parent_view st = None \<or> view_time = sync_time) \<and> view_time \<noteq> sync_time
        then Inr (0, [], st)
        else
          let pvp = (if parent_view st = None \<or> view_time = sync_time
                     then None else parent_view st);
              call = Send_view view pvp
          in if \<not> send_ok call then Inr (- 1, [call], st)
             else Inr (0, [call], st\<lparr>parent_view := Some view\<rparr>))"

section \<open>Bytes and byte order\<close>

text \<open>
  The file is a sequence of bytes. Integers go through \<open>htons\<close> and \<open>htonl\<close> or
  are written as they lie in memory, so the byte order of the host is a parameter of the
  model. \<open>be_bytes n w\<close> are the \<open>n\<close> low bytes of \<open>w\<close>, most significant first;
  \<open>mem_bytes h n w\<close> is the memory image of an \<open>n\<close>-byte integer object holding \<open>w\<close> on
  host \<open>h\<close>, which is what \<open>WRITE_VAL\<close> hands to the file; \<open>mem_val\<close> is the value of
  an object with the given memory image, which is what \<open>READ_VAL\<close> leaves in a variable.
  \<open>htons\<close> and \<open>htonl\<close> swap the bytes on a little-endian host and do nothing on a
  big-endian one; \<open>ntohs\<close> and \<open>ntohl\<close> are the same functions.
\<close>

type_synonym byte = "8 word"

datatype endian = Little_endian | Big_endian

fun be_bytes :: "nat \<Rightarrow> 'a::len word \<Rightarrow> byte list" where
  "be_bytes 0 w = []"
| "be_bytes (Suc n) w = be_bytes n (drop_bit 8 w) @ [ucast w]"

definition from_be :: "byte list \<Rightarrow> 'a::len word" where
  "from_be bs = foldl (\<lambda>acc b. push_bit 8 acc OR ucast b) 0 bs"

definition mem_bytes :: "endian \<Rightarrow> nat \<Rightarrow> 'a::len word \<Rightarrow> byte list" where
  "mem_bytes h n w = (case h of Big_endian \<Rightarrow> be_bytes n w | Little_endian \<Rightarrow> rev (be_bytes n w))"

definition mem_val :: "endian \<Rightarrow> byte list \<Rightarrow> 'a::len word" where
  "mem_val h bs = (case h of Big_endian \<Rightarrow> from_be bs | Little_endian \<Rightarrow> from_be (rev bs))"

definition htons :: "endian \<Rightarrow> 16 word \<Rightarrow> 16 word" where
  "htons h w = (case h of Big_endian \<Rightarrow> w | Little_endian \<Rightarrow> from_be (rev (be_bytes 2 w)))"

definition htonl :: "endian \<Rightarrow> 32 word \<Rightarrow> 32 word" where
  "htonl h w = (case h of Big_endian \<Rightarrow> w | Little_endian \<Rightarrow> from_be (rev (be_bytes 4 w)))"

definition ntohs :: "endian \<Rightarrow> 16 word \<Rightarrow> 16 word" where
  "ntohs h w = htons h w"

definition ntohl :: "endian \<Rightarrow> 32 word \<Rightarrow> 32 word" where
  "ntohl h w = htonl h w"

section \<open>Addresses, prefixes, peer signatures and AS paths\<close>

text \<open>
  The bgpstream values the codec moves. An address carries its version; the address
  itself is the number whose big-endian bytes are the memory of \<open>s_addr\<close> (4 bytes) or of
  \<open>s6_addr\<close> (16 bytes), which the codec copies as they are. \<open>collector_str\<close> is the
  content of the C string, without its terminator. A store path has its index in the
  store, the core flag and the opaque path data the codec copies.
\<close>

datatype ip_addr = Addr_v4 "32 word" | Addr_v6 "128 word" | Addr_unknown

record pfx =
  address :: ip_addr
  mask_len :: byte

record peer_sig =
  collector_str :: "byte list"
  peer_ip_addr :: ip_addr
  peer_asnumber :: "32 word"

record store_path =
  sp_idx :: "32 word"
  sp_is_core :: byte
  sp_data :: "byte list"

record path_id =
  store_index :: "32 word"
  is_core :: byte

section \<open>The view\<close>

text \<open>
  Modelled from the spec: the view and its operations (bgpview.c, the peer signature map
  and the AS path store are not among the sources; the codec only calls them). The view
  of section 3 of the specification: the time, the signature store (the signature of
  peer id \<open>k + 1\<close> is entry \<open>k\<close>), the path store, the peers with their active flag and
  the prefixes with their pfx-peers, each with a path id and an active flag. The maps
  are association lists, whose order is the iteration order. The user pointers are left
  out; the active flag of a prefix and the prefix counts of a peer are computed from the
  pfx-peers, as invariants 1 and 3 of section 4.3 define them.
\<close>

record pfx_peer_info =
  pp_path_id :: path_id
  pp_active :: bool

record view =
  view_time :: "32 word"
  sig_store :: "peer_sig list"
  path_store :: "store_path list"
  peers :: "(16 word \<times> bool) list"
  pfxs :: "(pfx \<times> (16 word \<times> pfx_peer_info) list) list"

text \<open>Modelled from the spec: a view with nothing in it and empty stores.\<close>

definition empty_view :: view where
  "empty_view = \<lparr> view_time = 0, sig_store = [], path_store = [], peers = [], pfxs = [] \<rparr>"

text \<open>Modelled from the spec: \<open>lookup(PeerID)\<close> of the signature store; id 0 is reserved.\<close>

definition sig_lookup :: "peer_sig list \<Rightarrow> 16 word \<Rightarrow> peer_sig option" where
  "sig_lookup store peer_id =
     (if peer_id \<noteq> 0 \<and> unat peer_id \<le> length store then Some (store ! (unat peer_id - 1))
      else None)"

text \<open>
  Modelled from the spec: the position of the first entry satisfying a test, used by
  both stores to find what they already hold.
\<close>

fun find_pos :: "('a \<Rightarrow> bool) \<Rightarrow> 'a list \<Rightarrow> nat option" where
  "find_pos P [] = None"
| "find_pos P (x # xs) =
     (if P x then Some 0 else (case find_pos P xs of None \<Rightarrow> None | Some k \<Rightarrow> Some (Suc k)))"

text \<open>
  Modelled from the spec: \<open>intern(collector, ip, asn)\<close>. The same triple gives the same
  id; a collector name longer than 255 bytes is refused and so is the 65535th signature.
  \<open>None\<close> is the failure.
\<close>

definition sig_intern :: "peer_sig list \<Rightarrow> peer_sig \<Rightarrow> (16 word \<times> peer_sig list) option" where
  "sig_intern store ps =
     (if length (collector_str ps) > 255 then None
      else (case find_pos (\<lambda>x. x = ps) store of
              Some k \<Rightarrow> Some (word_of_nat (k + 1), store)
            | None \<Rightarrow>
                if length store \<ge> 65534 then None
                else Some (word_of_nat (length store + 1), store @ [ps])))"

text \<open>Modelled from the spec: \<open>get_time\<close> and \<open>set_time\<close>.\<close>

definition bgpview_get_time :: "view \<Rightarrow> 32 word" where
  "bgpview_get_time v = view_time v"

definition bgpview_set_time :: "view \<Rightarrow> 32 word \<Rightarrow> view" where
  "bgpview_set_time v t = v\<lparr>view_time := t\<rparr>"

text \<open>
  Modelled from the spec: \<open>add_peer\<close> interns the signature and creates an inactive peer
  if the view has none with that id. The result is the peer id, 0 when interning fails.
\<close>

definition bgpview_iter_add_peer :: "view \<Rightarrow> peer_sig \<Rightarrow> 16 word \<times> view" where
  "bgpview_iter_add_peer v ps =
     (case sig_intern (sig_store v) ps of
        None \<Rightarrow> (0, v)
      | Some (peer_id, store') \<Rightarrow>
          (peer_id,
           v\<lparr>sig_store := store',
             peers := (if peer_id \<in> set (map fst (peers v)) then peers v
                       else peers v @ [(peer_id, False)])\<rparr>))"

text \<open>Modelled from the spec: \<open>activate_peer\<close> sets the active flag of the peer.\<close>

definition bgpview_iter_activate_peer :: "view \<Rightarrow> 16 word \<Rightarrow> view" where
  "bgpview_iter_activate_peer v peer_id =
     v\<lparr>peers := map (\<lambda>(p, a). if p = peer_id then (p, True) else (p, a)) (peers v)\<rparr>"

text \<open>
  Modelled from the spec: \<open>insert(encoding, is_core)\<close> of the path store. Equal encoding
  and core flag give the path already stored; a new path gets the next index.
\<close>

definition path_store_insert_path ::
  "store_path list \<Rightarrow> byte list \<Rightarrow> byte \<Rightarrow> path_id \<times> store_path list" where
  "path_store_insert_path store data core =
     (case find_pos (\<lambda>p. sp_data p = data \<and> sp_is_core p = core) store of
        Some k \<Rightarrow> (\<lparr>store_index = sp_idx (store ! k), is_core = core\<rparr>, store)
      | None \<Rightarrow>
          (\<lparr>store_index = word_of_nat (length store), is_core = core\<rparr>,
           store @ [\<lparr>sp_idx = word_of_nat (length store), sp_is_core = core, sp_data = data\<rparr>]))"

text \<open>Modelled from the spec: \<open>get(PathID)\<close>; \<open>None\<close> when the store has no such path.\<close>

definition path_store_get_store_path :: "store_path list \<Rightarrow> path_id \<Rightarrow> store_path option" where
  "path_store_get_store_path store pid =
     find (\<lambda>p. sp_idx p = store_index pid \<and> sp_is_core p = is_core pid) store"

text \<open>
  Modelled from the spec: an association list with one key set to a value, in place
  when the key is there and at the end when it is new.
\<close>

fun alist_set :: "'k \<Rightarrow> 'v \<Rightarrow> ('k \<times> 'v) list \<Rightarrow> ('k \<times> 'v) list" where
  "alist_set k v [] = [(k, v)]"
| "alist_set k v ((k', v') # kvs) =
     (if k' = k then (k, v) # kvs else (k', v') # alist_set k v kvs)"

text \<open>
  Modelled from the spec: \<open>add_pfx_peer(pfx, PeerID, PathID)\<close> inserts or updates and
  leaves the state inactive; the prefix is created when the view does not have it. A
  peer id that is not a peer of the view is refused (\<open>None\<close>), since every pfx-peer
  belongs to a peer of the view.
\<close>

definition bgpview_iter_add_pfx_peer_by_id ::
  "view \<Rightarrow> pfx \<Rightarrow> 16 word \<Rightarrow> path_id \<Rightarrow> view option" where
  "bgpview_iter_add_pfx_peer_by_id v p peer_id pid =
     (if peer_id \<notin> set (map fst (peers v)) then None
      else
        let old = (case map_of (pfxs v) p of None \<Rightarrow> [] | Some pps \<Rightarrow> pps);
            new = alist_set peer_id \<lparr>pp_path_id = pid, pp_active = False\<rparr> old
        in Some (v\<lparr>pfxs := alist_set p new (pfxs v)\<rparr>))"

text \<open>
  Modelled from the spec: \<open>activate_pfx_peer\<close> flips the pfx-peer to active and keeps
  the invariants, so the peer is active afterwards. The result is negative when the
  view has no such pfx-peer, 1 when the state changed and 0 when it was active already.
\<close>

definition bgpview_iter_pfx_activate_peer :: "view \<Rightarrow> pfx \<Rightarrow> 16 word \<Rightarrow> int \<times> view" where
  "bgpview_iter_pfx_activate_peer v p peer_id =
     (case map_of (pfxs v) p of
        None \<Rightarrow> (- 1, v)
      | Some pps \<Rightarrow>
          (case map_of pps peer_id of
             None \<Rightarrow> (- 1, v)
           | Some info \<Rightarrow>
               if pp_active info then (0, v)
               else (1, bgpview_iter_activate_peer
                          (v\<lparr>pfxs := alist_set p (alist_set peer_id (info\<lparr>pp_active := True\<rparr>) pps)
                                        (pfxs v)\<rparr>)
                          peer_id)))"

text \<open>
  Modelled from the spec: what the iterators with the \<open>ACTIVE\<close> filter visit. A prefix is
  active when one of its pfx-peers is.
\<close>

definition active_peers :: "view \<Rightarrow> 16 word list" where
  "active_peers v = map fst (filter snd (peers v))"

definition active_pfx_peers :: "(16 word \<times> pfx_peer_info) list \<Rightarrow> (16 word \<times> pfx_peer_info) list" where
  "active_pfx_peers pps = filter (\<lambda>(peer_id, info). pp_active info) pps"

definition active_pfxs :: "view \<Rightarrow> (pfx \<times> (16 word \<times> pfx_peer_info) list) list" where
  "active_pfxs v = filter (\<lambda>(p, pps). active_pfx_peers pps \<noteq> []) (pfxs v)"

section \<open>The binary codec: writing\<close>

text \<open>
  The outcomes of a codec function other than a result: it returns -1
  (\<open>Return_error\<close>); an \<open>assert\<close> fails or a NULL pointer is followed, and the process
  stops (\<open>Aborted\<close>); or it uses an array slot that lies beyond the array or that
  nothing has been written to (\<open>Undefined\<close>), after which the source says nothing about
  what it does.
\<close>

datatype io_error = Return_error | Aborted | Undefined

definition VIEW_MAGIC :: "32 word" where "VIEW_MAGIC = 0x42475056"
definition VIEW_START_MAGIC :: "32 word" where "VIEW_START_MAGIC = 0x53545254"
definition VIEW_END_MAGIC :: "32 word" where "VIEW_END_MAGIC = 0x56454E44"
definition VIEW_PEER_END_MAGIC :: "32 word" where "VIEW_PEER_END_MAGIC = 0x50454E44"
definition VIEW_PATH_END_MAGIC :: "32 word" where "VIEW_PATH_END_MAGIC = 0x50415448"
definition VIEW_PFX_END_MAGIC :: "32 word" where "VIEW_PFX_END_MAGIC = 0x58454E44"
definition BUFFER_LEN :: nat where "BUFFER_LEN = 1024"

text \<open>
  \<open>WRITE_VAL\<close> appends the memory of its argument to the file. The output file takes
  every byte: a failing \<open>wandio_wwrite\<close> is not modelled.
\<close>

definition WRITE_VAL8 :: "byte \<Rightarrow> byte list" where
  "WRITE_VAL8 x = [x]"

definition WRITE_VAL16 :: "endian \<Rightarrow> 16 word \<Rightarrow> byte list" where
  "WRITE_VAL16 h x = mem_bytes h 2 x"

definition WRITE_VAL32 :: "endian \<Rightarrow> 32 word \<Rightarrow> byte list" where
  "WRITE_VAL32 h x = mem_bytes h 4 x"

definition WRITE_MAGIC :: "endian \<Rightarrow> 32 word \<Rightarrow> byte list" where
  "WRITE_MAGIC h magic = WRITE_VAL32 h (htonl h VIEW_MAGIC) @ WRITE_VAL32 h (htonl h magic)"

definition write_ip :: "ip_addr \<Rightarrow> io_error + byte list" where
  "write_ip ip =
     (case ip of
        Addr_v4 a \<Rightarrow> Inr (WRITE_VAL8 4 @ be_bytes 4 a)
      | Addr_v6 a \<Rightarrow> Inr (WRITE_VAL8 16 @ be_bytes 16 a)
      | Addr_unknown \<Rightarrow> Inl Return_error)"

text \<open>
  The filter callback of the writer is asked about a peer, a prefix or a pfx-peer, which
  it reads off the iterator; \<open>None\<close> is the NULL callback. A negative answer is an error,
  0 skips the item and anything else keeps it.
\<close>

datatype filter_arg = Filter_peer "16 word" | Filter_pfx pfx | Filter_pfx_peer pfx "16 word"

datatype filter_result = Filter_err | Filter_skip | Filter_keep

definition ask_filter :: "('a \<Rightarrow> int) option \<Rightarrow> 'a \<Rightarrow> filter_result" where
  "ask_filter cb x =
     (case cb of
        None \<Rightarrow> Filter_keep
      | Some f \<Rightarrow> if f x < 0 then Filter_err else if f x = 0 then Filter_skip else Filter_keep)"

text \<open>One peer record of \<open>write_peers\<close>: id, collector name, address and AS number.\<close>

definition write_peer_record :: "endian \<Rightarrow> view \<Rightarrow> 16 word \<Rightarrow> io_error + byte list" where
  "write_peer_record h v peer_id =
     (case sig_lookup (sig_store v) peer_id of
        None \<Rightarrow> Inl Aborted
      | Some ps \<Rightarrow>
          if length (collector_str ps) > 255 then Inl Aborted
          else (case write_ip (peer_ip_addr ps) of
                  Inl e \<Rightarrow> Inl e
                | Inr ip \<Rightarrow>
                    Inr (WRITE_VAL16 h (htons h peer_id)
                         @ WRITE_VAL8 (word_of_nat (length (collector_str ps)))
                         @ collector_str ps
                         @ ip
                         @ WRITE_VAL32 h (htonl h (peer_asnumber ps)))))"

text \<open>The loop of \<open>write_peers\<close> over the active peers; \<open>peers_tx\<close> counts the records.\<close>

fun write_peers_loop ::
  "endian \<Rightarrow> (filter_arg \<Rightarrow> int) option \<Rightarrow> view \<Rightarrow> 16 word list \<Rightarrow> byte list \<Rightarrow> nat \<Rightarrow>
     io_error + (byte list \<times> nat)" where
  "write_peers_loop h cb v [] out peers_tx = Inr (out, peers_tx)"
| "write_peers_loop h cb v (peer_id # rest) out peers_tx =
     (case ask_filter cb (Filter_peer peer_id) of
        Filter_err \<Rightarrow> Inl Return_error
      | Filter_skip \<Rightarrow> write_peers_loop h cb v rest out peers_tx
      | Filter_keep \<Rightarrow>
          (case write_peer_record h v peer_id of
             Inl e \<Rightarrow> Inl e
           | Inr bs \<Rightarrow> write_peers_loop h cb v rest (out @ bs) (peers_tx + 1)))"

definition write_peers :: "endian \<Rightarrow> (filter_arg \<Rightarrow> int) option \<Rightarrow> view \<Rightarrow> io_error + byte list" where
  "write_peers h cb v =
     (case write_peers_loop h cb v (active_peers v) [] 0 of
        Inl e \<Rightarrow> Inl e
      | Inr (out, peers_tx) \<Rightarrow>
          if peers_tx > 65535 then Inl Aborted
          else Inr (out @ WRITE_MAGIC h VIEW_PEER_END_MAGIC
                        @ WRITE_VAL16 h (htons h (word_of_nat peers_tx))))"

text \<open>
  One path record of \<open>write_paths\<close>. The index and the length are written as they lie in
  memory; the length is the \<open>uint16_t\<close> of the path and that many bytes follow.
\<close>

definition write_path_record :: "endian \<Rightarrow> store_path \<Rightarrow> byte list" where
  "write_path_record h spath =
     (let idx = sp_idx spath;
          core = sp_is_core spath;
          path_len = (word_of_nat (length (sp_data spath)) :: 16 word)
      in WRITE_VAL32 h idx @ WRITE_VAL8 core @ WRITE_VAL16 h path_len
         @ take (unat path_len) (sp_data spath))"

definition write_paths :: "endian \<Rightarrow> view \<Rightarrow> io_error + byte list" where
  "write_paths h v =
     (let paths_tx = length (path_store v)
      in Inr (concat (map (write_path_record h) (path_store v))
              @ WRITE_MAGIC h VIEW_PATH_END_MAGIC
              @ WRITE_VAL32 h (htonl h (word_of_nat paths_tx))))"

text \<open>
  \<open>write_pfx_peers\<close>: the active pfx-peers of the prefix the iterator stands on. The
  result is the bytes written and \<open>peers_cnt\<close>.
\<close>

fun write_pfx_peers ::
  "endian \<Rightarrow> (filter_arg \<Rightarrow> int) option \<Rightarrow> view \<Rightarrow> pfx \<Rightarrow> (16 word \<times> pfx_peer_info) list \<Rightarrow>
     byte list \<Rightarrow> nat \<Rightarrow> io_error + (byte list \<times> nat)" where
  "write_pfx_peers h cb v p [] out peers_cnt = Inr (out, peers_cnt)"
| "write_pfx_peers h cb v p ((peerid, info) # rest) out peers_cnt =
     (case ask_filter cb (Filter_pfx_peer p peerid) of
        Filter_err \<Rightarrow> Inl Return_error
      | Filter_skip \<Rightarrow> write_pfx_peers h cb v p rest out peers_cnt
      | Filter_keep \<Rightarrow>
          if \<not> peerid > 0 then Inl Aborted
          else (case path_store_get_store_path (path_store v) (pp_path_id info) of
                  None \<Rightarrow> Inl Aborted
                | Some spath \<Rightarrow>
                    write_pfx_peers h cb v p rest
                      (out @ WRITE_VAL16 h (htons h peerid) @ WRITE_VAL32 h (sp_idx spath))
                      (peers_cnt + 1)))"

text \<open>
  The loop of \<open>write_pfxs\<close> over the active prefixes. The address and the mask length
  are written before the pfx-peers are; a prefix whose \<open>peers_cnt\<close> comes back 0 is left
  at that point by \<open>continue\<close>.
\<close>

fun write_pfxs_loop ::
  "endian \<Rightarrow> (filter_arg \<Rightarrow> int) option \<Rightarrow> view \<Rightarrow> (pfx \<times> (16 word \<times> pfx_peer_info) list) list \<Rightarrow>
     byte list \<Rightarrow> nat \<Rightarrow> io_error + (byte list \<times> nat)" where
  "write_pfxs_loop h cb v [] out pfx_cnt = Inr (out, pfx_cnt)"
| "write_pfxs_loop h cb v ((p, pps) # rest) out pfx_cnt =
     (case ask_filter cb (Filter_pfx p) of
        Filter_err \<Rightarrow> Inl Return_error
      | Filter_skip \<Rightarrow> write_pfxs_loop h cb v rest out pfx_cnt
      | Filter_keep \<Rightarrow>
          (case write_ip (address p) of
             Inl e \<Rightarrow> Inl e
           | Inr ip \<Rightarrow>
               (case write_pfx_peers h cb v p (active_pfx_peers pps)
                       (out @ ip @ WRITE_VAL8 (mask_len p)) 0 of
                  Inl e \<Rightarrow> Inl e
                | Inr (out', peers_cnt) \<Rightarrow>
                    if peers_cnt = 0 then write_pfxs_loop h cb v rest out' pfx_cnt
                    else write_pfxs_loop h cb v rest
                           (out' @ WRITE_MAGIC h VIEW_PEER_END_MAGIC
                                 @ WRITE_VAL16 h (htons h (word_of_nat peers_cnt)))
                           (pfx_cnt + 1))))"

definition write_pfxs :: "endian \<Rightarrow> (filter_arg \<Rightarrow> int) option \<Rightarrow> view \<Rightarrow> io_error + byte list" where
  "write_pfxs h cb v =
     (case write_pfxs_loop h cb v (active_pfxs v) [] 0 of
        Inl e \<Rightarrow> Inl e
      | Inr (out, pfx_cnt) \<Rightarrow>
          Inr (out @ WRITE_MAGIC h VIEW_PFX_END_MAGIC
                   @ WRITE_VAL32 h (htonl h (word_of_nat pfx_cnt))))"

text \<open>
  \<open>bgpview_io_file_write\<close>. A NULL view writes nothing and returns 0. The result is the
  bytes written by a call that returns 0.
\<close>

definition bgpview_io_file_write ::
  "endian \<Rightarrow> (filter_arg \<Rightarrow> int) option \<Rightarrow> view option \<Rightarrow> io_error + byte list" where
  "bgpview_io_file_write h cb view =
     (case view of
        None \<Rightarrow> Inr []
      | Some v \<Rightarrow>
          (case write_peers h cb v of
             Inl e \<Rightarrow> Inl e
           | Inr peers_bytes \<Rightarrow>
               (case write_paths h v of
                  Inl e \<Rightarrow> Inl e
                | Inr paths_bytes \<Rightarrow>
                    (case write_pfxs h cb v of
                       Inl e \<Rightarrow> Inl e
                     | Inr pfxs_bytes \<Rightarrow>
                         Inr (WRITE_MAGIC h VIEW_START_MAGIC
                              @ WRITE_VAL32 h (htonl h (bgpview_get_time v))
                              @ peers_bytes @ paths_bytes @ pfxs_bytes
                              @ WRITE_MAGIC h VIEW_END_MAGIC)))))"

section \<open>The wire format\<close>

text \<open>
  The file format of section 4.5 of the specification, written out field by field with
  the byte order of each: \<open>be_bytes\<close> for a big-endian field, \<open>mem_bytes h\<close> for a field
  in the byte order of the writing host \<open>h\<close>. These definitions follow the
  specification's frame order, not the source; the writer is compared with them below.
  A record whose signature or path cannot be looked up has no encoding (the writer stops
  there).
\<close>

definition wire_magic :: "32 word \<Rightarrow> byte list" where
  "wire_magic sub_magic = be_bytes 4 VIEW_MAGIC @ be_bytes 4 sub_magic"

definition wire_ip :: "ip_addr \<Rightarrow> byte list" where
  "wire_ip ip =
     (case ip of
        Addr_v4 a \<Rightarrow> 4 # be_bytes 4 a
      | Addr_v6 a \<Rightarrow> 16 # be_bytes 16 a
      | Addr_unknown \<Rightarrow> [])"

definition wire_peer :: "16 word \<Rightarrow> peer_sig \<Rightarrow> byte list" where
  "wire_peer peer_id ps =
     be_bytes 2 peer_id
     @ [word_of_nat (length (collector_str ps))] @ collector_str ps
     @ wire_ip (peer_ip_addr ps)
     @ be_bytes 4 (peer_asnumber ps)"

definition wire_path :: "endian \<Rightarrow> store_path \<Rightarrow> byte list" where
  "wire_path h spath =
     mem_bytes h 4 (sp_idx spath)
     @ [sp_is_core spath]
     @ mem_bytes h 2 (word_of_nat (length (sp_data spath)) :: 16 word)
     @ take (unat (word_of_nat (length (sp_data spath)) :: 16 word)) (sp_data spath)"

definition wire_pfx_peer :: "endian \<Rightarrow> 16 word \<Rightarrow> 32 word \<Rightarrow> byte list" where
  "wire_pfx_peer h peer_id path_idx = be_bytes 2 peer_id @ mem_bytes h 4 path_idx"

definition wire_peers :: "view \<Rightarrow> byte list" where
  "wire_peers v =
     concat (map (\<lambda>peer_id. case sig_lookup (sig_store v) peer_id of
                               None \<Rightarrow> []
                             | Some ps \<Rightarrow> wire_peer peer_id ps)
                 (active_peers v))
     @ wire_magic VIEW_PEER_END_MAGIC
     @ be_bytes 2 (word_of_nat (length (active_peers v)) :: 16 word)"

definition wire_paths :: "endian \<Rightarrow> view \<Rightarrow> byte list" where
  "wire_paths h v =
     concat (map (wire_path h) (path_store v))
     @ wire_magic VIEW_PATH_END_MAGIC
     @ be_bytes 4 (word_of_nat (length (path_store v)) :: 32 word)"

definition wire_pfx_peers :: "endian \<Rightarrow> view \<Rightarrow> (16 word \<times> pfx_peer_info) list \<Rightarrow> byte list" where
  "wire_pfx_peers h v pps =
     concat (map (\<lambda>(peer_id, info).
                    case path_store_get_store_path (path_store v) (pp_path_id info) of
                      None \<Rightarrow> []
                    | Some spath \<Rightarrow> wire_pfx_peer h peer_id (sp_idx spath))
                 pps)"

definition wire_pfx :: "endian \<Rightarrow> view \<Rightarrow> pfx \<times> (16 word \<times> pfx_peer_info) list \<Rightarrow> byte list" where
  "wire_pfx h v entry =
     (case entry of
        (p, pps) \<Rightarrow>
          wire_ip (address p) @ [mask_len p]
          @ wire_pfx_peers h v (active_pfx_peers pps)
          @ wire_magic VIEW_PEER_END_MAGIC
          @ be_bytes 2 (word_of_nat (length (active_pfx_peers pps)) :: 16 word))"

definition wire_pfxs :: "endian \<Rightarrow> view \<Rightarrow> byte list" where
  "wire_pfxs h v =
     concat (map (wire_pfx h v) (active_pfxs v))
     @ wire_magic VIEW_PFX_END_MAGIC
     @ be_bytes 4 (word_of_nat (length (active_pfxs v)) :: 32 word)"

definition wire_view :: "endian \<Rightarrow> view \<Rightarrow> byte list" where
  "wire_view h v =
     wire_magic VIEW_START_MAGIC
     @ be_bytes 4 (view_time v)
     @ wire_peers v @ wire_paths h v @ wire_pfxs h v
     @ wire_magic VIEW_END_MAGIC"

section \<open>The binary codec: reading\<close>

text \<open>
  The input file is the list of the bytes still to come. \<open>wandio_read\<close> hands over the
  bytes asked for, or the fewer that are left. \<open>READ_VAL\<close> reads into a variable of
  \<open>n\<close> bytes; after a short read the source prints a message and goes on, so the
  bytes that came lie at the start of the variable and the rest of it holds what it held
  before. The old memory image of the variable is an argument, and the new one the
  result. The typed forms take and give the value of the variable.
\<close>

definition wandio_read :: "nat \<Rightarrow> byte list \<Rightarrow> byte list \<times> byte list" where
  "wandio_read len s = (take len s, drop len s)"

definition READ_VAL :: "nat \<Rightarrow> byte list \<Rightarrow> byte list \<Rightarrow> byte list \<times> byte list" where
  "READ_VAL n old s =
     (case wandio_read n s of (got, s') \<Rightarrow> (got @ drop (length got) old, s'))"

definition READ_VAL8 :: "byte \<Rightarrow> byte list \<Rightarrow> byte \<times> byte list" where
  "READ_VAL8 old s = (case READ_VAL 1 [old] s of (m, s') \<Rightarrow> (hd m, s'))"

definition READ_VAL16 :: "endian \<Rightarrow> 16 word \<Rightarrow> byte list \<Rightarrow> 16 word \<times> byte list" where
  "READ_VAL16 h old s =
     (case READ_VAL 2 (mem_bytes h 2 old) s of (m, s') \<Rightarrow> (mem_val h m, s'))"

definition READ_VAL32 :: "endian \<Rightarrow> 32 word \<Rightarrow> byte list \<Rightarrow> 32 word \<times> byte list" where
  "READ_VAL32 h old s =
     (case READ_VAL 4 (mem_bytes h 4 old) s of (m, s') \<Rightarrow> (mem_val h m, s'))"

text \<open>
  The local variables that the reader fills with \<open>READ_VAL\<close> are not initialised. What
  they hold before the first read into them is not the program's to say, so it is a
  parameter of the model: one value for each variable. The variables of \<open>read_peers\<close>,
  \<open>read_paths\<close> and \<open>read_pfxs\<close> live as long as the call and keep their values from
  one iteration to the next; \<open>len\<close> of \<open>read_ip\<close> is new in every call.
\<close>

record peers_vars =
  pv_peerid_orig :: "16 word"
  pv_len :: byte
  pv_asnumber :: "32 word"
  pv_pc :: "16 word"

record paths_vars =
  av_pathidx :: "32 word"
  av_is_core :: byte
  av_pathlen :: "16 word"
  av_pc :: "32 word"

record pfxs_vars =
  xv_mask_len :: byte
  xv_peerid :: "16 word"
  xv_pathidx :: "32 word"
  xv_peer_cnt :: "16 word"
  xv_pfx_cnt :: "32 word"

record uninit =
  u_ip_len :: byte
  u_peers :: peers_vars
  u_paths :: paths_vars
  u_pfxs :: pfxs_vars

text \<open>
  \<open>check_magic\<close> peeks at 8 bytes; with fewer left it answers 0. \<open>ntohll\<close> of the
  peeked memory is the big-endian value of the 8 bytes on either host. The magic is
  consumed when both halves match, and the stream is untouched otherwise.
\<close>

definition check_magic :: "32 word \<Rightarrow> byte list \<Rightarrow> bool \<times> byte list" where
  "check_magic magic s =
     (if length s < 8 then (False, s)
      else
        let buf = (from_be (take 8 s) :: 64 word) in
        if (ucast (drop_bit 32 buf) :: 32 word) \<noteq> VIEW_MAGIC then (False, s)
        else if (ucast (buf AND 0xffffffff) :: 32 word) \<noteq> magic then (False, s)
        else (True, drop 8 s))"

text \<open>
  \<open>read_ip\<close>. \<open>len0\<close> is what its variable \<open>len\<close> holds at the start of the call.
\<close>

definition read_ip :: "byte \<Rightarrow> byte list \<Rightarrow> (io_error + ip_addr) \<times> byte list" where
  "read_ip len0 s =
     (case READ_VAL8 len0 s of
        (len, s1) \<Rightarrow>
          if len = 4 then
            (case wandio_read 4 s1 of
               (a, s2) \<Rightarrow> if length a \<noteq> 4 then (Inl Return_error, s2)
                          else (Inr (Addr_v4 (from_be a)), s2))
          else if len = 16 then
            (case wandio_read 16 s1 of
               (a, s2) \<Rightarrow> if length a \<noteq> 16 then (Inl Return_error, s2)
                          else (Inr (Addr_v6 (from_be a)), s2))
          else (Inl Return_error, s1))"

text \<open>
  The loops of the reader run a body until it breaks, fails or the counter reaches its
  bound (\<open>UINT16_MAX\<close> or \<open>UINT32_MAX\<close>). A body gives back the loop state and how the
  iteration ended: \<open>break\<close>, the end of the body or \<open>continue\<close>, or a jump out of the
  function with an error.
\<close>

datatype 's step = Break 's | Continue 's | Fail io_error 's

function for_loop :: "nat \<Rightarrow> nat \<Rightarrow> ('s \<Rightarrow> 's step) \<Rightarrow> 's \<Rightarrow> io_error option \<times> 's" where
  "for_loop bound i body s =
     (if i < bound then
        (case body s of
           Break s' \<Rightarrow> (None, s')
         | Continue s' \<Rightarrow> for_loop bound (Suc i) body s'
         | Fail e s' \<Rightarrow> (Some e, s'))
      else (None, s))"
  by pat_completeness auto
termination
  by (relation "measure (\<lambda>(bound, i, body, s). bound - i)") auto

declare for_loop.simps [simp del]

definition UINT16_MAX :: nat where "UINT16_MAX = 65535"
definition UINT32_MAX :: nat where "UINT32_MAX = 4294967295"

text \<open>
  The fields of one peer record, as \<open>read_peers\<close> reads them into \<open>peerid_orig\<close>, \<open>len\<close>
  and \<open>ps\<close>. The result is the signature read, or the error, with the variables as the
  reads leave them.
\<close>

definition read_peer_record ::
  "endian \<Rightarrow> byte \<Rightarrow> peers_vars \<Rightarrow> byte list \<Rightarrow> (io_error + peer_sig) \<times> peers_vars \<times> byte list" where
  "read_peer_record h ip_len0 vars s =
     (case READ_VAL16 h (pv_peerid_orig vars) s of
        (w, s1) \<Rightarrow>
          let vars1 = vars\<lparr>pv_peerid_orig := ntohs h w\<rparr> in
          (case READ_VAL8 (pv_len vars1) s1 of
             (len, s2) \<Rightarrow>
               let vars2 = vars1\<lparr>pv_len := len\<rparr> in
               (case wandio_read (unat len) s2 of
                  (coll, s3) \<Rightarrow>
                    if length coll \<noteq> unat len then (Inl Return_error, vars2, s3)
                    else
                      (case read_ip ip_len0 s3 of
                         (Inl e, s4) \<Rightarrow> (Inl e, vars2, s4)
                       | (Inr ip, s4) \<Rightarrow>
                           (case READ_VAL32 h (pv_asnumber vars2) s4 of
                              (a, s5) \<Rightarrow>
                                let vars3 = vars2\<lparr>pv_asnumber := ntohl h a\<rparr> in
                                (Inr \<lparr>collector_str = takeWhile (\<lambda>c. c \<noteq> 0) coll,
                                      peer_ip_addr = ip,
                                      peer_asnumber = pv_asnumber vars3\<rparr>, vars3, s5))))))"

text \<open>
  The state of the loop of \<open>read_peers\<close>: the file, the view behind the iterator (\<open>None\<close>
  for a NULL iterator), the id map, \<open>peers_rx\<close> and the variables read into. \<open>idmap_cnt\<close>
  is the length of the map.
\<close>

record peers_state =
  ps_infile :: "byte list"
  ps_view :: "view option"
  ps_idmap :: "16 word list"
  peers_rx :: nat
  ps_vars :: peers_vars

definition read_peers_body ::
  "endian \<Rightarrow> (peer_sig \<Rightarrow> int) option \<Rightarrow> byte \<Rightarrow> peers_state \<Rightarrow> peers_state step" where
  "read_peers_body h peer_cb ip_len0 st =
     (case check_magic VIEW_PEER_END_MAGIC (ps_infile st) of
        (True, s1) \<Rightarrow> Break (st\<lparr>ps_infile := s1\<rparr>)
      | (False, s0) \<Rightarrow>
          (case read_peer_record h ip_len0 (ps_vars st) s0 of
             (Inl e, vars, s1) \<Rightarrow>
               Fail e (st\<lparr>ps_infile := s1, peers_rx := peers_rx st + 1, ps_vars := vars\<rparr>)
           | (Inr ps, vars, s1) \<Rightarrow>
               let peerid_orig = pv_peerid_orig vars;
                   st1 = st\<lparr>ps_infile := s1, peers_rx := peers_rx st + 1, ps_vars := vars\<rparr> in
               (case ps_view st of
                  None \<Rightarrow> Continue st1
                | Some v \<Rightarrow>
                    (case ask_filter peer_cb ps of
                       Filter_err \<Rightarrow> Fail Return_error st1
                     | Filter_skip \<Rightarrow> Continue st1
                     | Filter_keep \<Rightarrow>
                         let idmap = (if unat peerid_orig + 1 > length (ps_idmap st)
                                      then ps_idmap st
                                           @ replicate (unat peerid_orig + 1 - length (ps_idmap st)) 0
                                      else ps_idmap st)
                         in (case bgpview_iter_add_peer v ps of
                               (peerid_new, v') \<Rightarrow>
                                 if peerid_new = 0
                                 then Fail Aborted (st1\<lparr>ps_view := Some v', ps_idmap := idmap\<rparr>)
                                 else Continue
                                        (st1\<lparr>ps_view := Some (bgpview_iter_activate_peer v' peerid_new),
                                             ps_idmap := idmap[unat peerid_orig := peerid_new]\<rparr>))))))"

text \<open>
  \<open>read_peers\<close>: the loop, then the count, which is compared with \<open>peers_rx\<close> in an
  \<open>assert\<close>. The result is the id map; the view and the rest of the file come back in
  every case.
\<close>

definition read_peers ::
  "endian \<Rightarrow> (peer_sig \<Rightarrow> int) option \<Rightarrow> uninit \<Rightarrow> byte list \<Rightarrow> view option \<Rightarrow>
     (io_error + 16 word list) \<times> byte list \<times> view option" where
  "read_peers h peer_cb u s iter =
     (case for_loop UINT16_MAX 0 (read_peers_body h peer_cb (u_ip_len u))
             \<lparr>ps_infile = s, ps_view = iter, ps_idmap = [], peers_rx = 0,
              ps_vars = u_peers u\<rparr> of
        (Some e, st) \<Rightarrow> (Inl e, ps_infile st, ps_view st)
      | (None, st) \<Rightarrow>
          (case READ_VAL16 h (pv_pc (ps_vars st)) (ps_infile st) of
             (w, s1) \<Rightarrow>
               if unat (ntohs h w) \<noteq> peers_rx st then (Inl Aborted, s1, ps_view st)
               else (Inr (ps_idmap st), s1, ps_view st)))"

text \<open>
  The fields of one path record, as \<open>read_paths\<close> reads them into \<open>pathidx\<close>, \<open>is_core\<close>,
  \<open>pathlen\<close> and \<open>pathdata\<close>. The result is the path data read, or the error, with the
  variables as the reads leave them.
\<close>

definition read_path_record ::
  "endian \<Rightarrow> paths_vars \<Rightarrow> byte list \<Rightarrow> (io_error + byte list) \<times> paths_vars \<times> byte list" where
  "read_path_record h vars s =
     (case READ_VAL32 h (av_pathidx vars) s of
        (pathidx, s1) \<Rightarrow>
          (case READ_VAL8 (av_is_core vars) s1 of
             (core, s2) \<Rightarrow>
               (case READ_VAL16 h (av_pathlen vars) s2 of
                  (pathlen, s3) \<Rightarrow>
                    let vars3 = vars\<lparr>av_pathidx := pathidx, av_is_core := core,
                                     av_pathlen := pathlen\<rparr> in
                    if \<not> unat pathlen \<le> BUFFER_LEN then (Inl Aborted, vars3, s3)
                    else
                      (case wandio_read (unat pathlen) s3 of
                         (pathdata, s4) \<Rightarrow>
                           if length pathdata \<noteq> unat pathlen then (Inl Return_error, vars3, s4)
                           else (Inr pathdata, vars3, s4)))))"

text \<open>
  The state of the loop of \<open>read_paths\<close>. A slot of the id map that \<open>realloc\<close> has made
  and nothing has written yet is \<open>None\<close>. The path store of a NULL iterator is not
  touched.
\<close>

record paths_state =
  pa_infile :: "byte list"
  pa_view :: "view option"
  pa_idmap :: "path_id option list"
  paths_rx :: nat
  pa_vars :: paths_vars

text \<open>
  Growing the id map for \<open>pathidx\<close>. \<open>pathidx + 1\<close> is computed in 32 bits; the new count
  \<open>pathidx * 2\<close> is stored in an \<open>int\<close>, and a count that does not fit, like a slot beyond
  the map, is \<open>Undefined\<close>.
\<close>

definition grow_path_idmap :: "32 word \<Rightarrow> path_id option list \<Rightarrow> path_id option list option" where
  "grow_path_idmap pathidx idmap =
     (let grown =
            (if unat (pathidx + 1) > length idmap
             then (if pathidx = 0 then Some (idmap @ replicate (1 - length idmap) None)
                   else if 2 * unat pathidx \<ge> 2 ^ 31 then None
                   else Some (idmap @ replicate (2 * unat pathidx - length idmap) None))
             else Some idmap)
      in case grown of
           None \<Rightarrow> None
         | Some idmap' \<Rightarrow> if unat pathidx < length idmap' then Some idmap' else None)"

definition read_paths_body :: "endian \<Rightarrow> paths_state \<Rightarrow> paths_state step" where
  "read_paths_body h st =
     (case check_magic VIEW_PATH_END_MAGIC (pa_infile st) of
        (True, s1) \<Rightarrow> Break (st\<lparr>pa_infile := s1\<rparr>)
      | (False, s0) \<Rightarrow>
          (case read_path_record h (pa_vars st) s0 of
             (Inl e, vars, s1) \<Rightarrow>
               Fail e (st\<lparr>pa_infile := s1, paths_rx := paths_rx st + 1, pa_vars := vars\<rparr>)
           | (Inr pathdata, vars, s1) \<Rightarrow>
               let pathidx = av_pathidx vars;
                   core = av_is_core vars;
                   st1 = st\<lparr>pa_infile := s1, paths_rx := paths_rx st + 1, pa_vars := vars\<rparr> in
               (case pa_view st of
                  None \<Rightarrow> Continue st1
                | Some v \<Rightarrow>
                    (case grow_path_idmap pathidx (pa_idmap st) of
                       None \<Rightarrow> Fail Undefined st1
                     | Some idmap \<Rightarrow>
                         (case path_store_insert_path (path_store v) pathdata core of
                            (pid, store') \<Rightarrow>
                              Continue (st1\<lparr>pa_view := Some (v\<lparr>path_store := store'\<rparr>),
                                            pa_idmap := idmap[unat pathidx := Some pid]\<rparr>))))))"

definition read_paths ::
  "endian \<Rightarrow> uninit \<Rightarrow> byte list \<Rightarrow> view option \<Rightarrow>
     (io_error + path_id option list) \<times> byte list \<times> view option" where
  "read_paths h u s iter =
     (case for_loop UINT32_MAX 0 (read_paths_body h)
             \<lparr>pa_infile = s, pa_view = iter, pa_idmap = [], paths_rx = 0,
              pa_vars = u_paths u\<rparr> of
        (Some e, st) \<Rightarrow> (Inl e, pa_infile st, pa_view st)
      | (None, st) \<Rightarrow>
          (case READ_VAL32 h (av_pc (pa_vars st)) (pa_infile st) of
             (w, s1) \<Rightarrow>
               if unat (ntohl h w) \<noteq> paths_rx st then (Inl Aborted, s1, pa_view st)
               else (Inr (pa_idmap st), s1, pa_view st)))"

text \<open>
  The state of the inner loop of \<open>read_pfxs\<close>, over the pfx-peers of one prefix;
  \<open>peerid\<close> and \<open>pathidx\<close> are among the variables.
\<close>

record pfx_peers_state =
  pp_infile :: "byte list"
  pp_view :: "view option"
  pfx_peers_added :: nat
  pfx_peer_rx :: nat
  pp_vars :: pfxs_vars

definition read_pfx_peers_body ::
  "endian \<Rightarrow> (store_path option \<Rightarrow> int) option \<Rightarrow> 16 word list \<Rightarrow> path_id option list \<Rightarrow>
     pfx \<Rightarrow> bool \<Rightarrow> pfx_peers_state \<Rightarrow> pfx_peers_state step" where
  "read_pfx_peers_body h pfx_peer_cb peerid_map pathid_map p skip_pfx st =
     (case check_magic VIEW_PEER_END_MAGIC (pp_infile st) of
        (True, s1) \<Rightarrow> Break (st\<lparr>pp_infile := s1\<rparr>)
      | (False, s0) \<Rightarrow>
          (case READ_VAL16 h (xv_peerid (pp_vars st)) s0 of
             (w, s1) \<Rightarrow>
               let peerid = ntohs h w in
               (case READ_VAL32 h (xv_pathidx (pp_vars st)) s1 of
                  (pathidx, s2) \<Rightarrow>
                    let st2 = st\<lparr>pp_infile := s2, pfx_peer_rx := pfx_peer_rx st + 1,
                                 pp_vars := (pp_vars st)\<lparr>xv_peerid := peerid,
                                                          xv_pathidx := pathidx\<rparr>\<rparr> in
                    (case pp_view st of
                       None \<Rightarrow> Continue st2
                     | Some v \<Rightarrow>
                         if skip_pfx then Continue st2
                         else if \<not> unat peerid < length peerid_map then Fail Aborted st2
                         else if \<not> unat pathidx < length pathid_map then Fail Undefined st2
                         else
                           (case pathid_map ! unat pathidx of
                              None \<Rightarrow> Fail Undefined st2
                            | Some pid \<Rightarrow>
                                (case ask_filter pfx_peer_cb
                                        (path_store_get_store_path (path_store v) pid) of
                                   Filter_err \<Rightarrow> Fail Return_error st2
                                 | Filter_skip \<Rightarrow> Continue st2
                                 | Filter_keep \<Rightarrow>
                                     (case bgpview_iter_add_pfx_peer_by_id v p
                                             (peerid_map ! unat peerid) pid of
                                        None \<Rightarrow> Fail Return_error st2
                                      | Some v1 \<Rightarrow>
                                          (case bgpview_iter_pfx_activate_peer v1 p
                                                  (peerid_map ! unat peerid) of
                                             (r, v2) \<Rightarrow>
                                               if r < 0
                                               then Fail Return_error
                                                      (st2\<lparr>pp_view := Some v2,
                                                           pfx_peers_added := pfx_peers_added st + 1\<rparr>)
                                               else Continue
                                                      (st2\<lparr>pp_view := Some v2,
                                                           pfx_peers_added := pfx_peers_added st + 1\<rparr>)))))))))"

text \<open>The state of the outer loop of \<open>read_pfxs\<close>.\<close>

record pfxs_state =
  px_infile :: "byte list"
  px_view :: "view option"
  pfx_rx :: nat
  px_vars :: pfxs_vars

definition read_pfxs_body ::
  "endian \<Rightarrow> (pfx \<Rightarrow> int) option \<Rightarrow> (store_path option \<Rightarrow> int) option \<Rightarrow> byte \<Rightarrow>
     16 word list \<Rightarrow> path_id option list \<Rightarrow> pfxs_state \<Rightarrow> pfxs_state step" where
  "read_pfxs_body h pfx_cb pfx_peer_cb ip_len0 peerid_map pathid_map st =
     (case check_magic VIEW_PFX_END_MAGIC (px_infile st) of
        (True, s1) \<Rightarrow> Break (st\<lparr>px_infile := s1\<rparr>)
      | (False, s0) \<Rightarrow>
          (case read_ip ip_len0 s0 of
             (Inl e, s1) \<Rightarrow> Fail e (st\<lparr>px_infile := s1, pfx_rx := pfx_rx st + 1\<rparr>)
           | (Inr ip, s1) \<Rightarrow>
               (case READ_VAL8 (xv_mask_len (px_vars st)) s1 of
                  (mlen, s2) \<Rightarrow>
                    let p = \<lparr>address = ip, mask_len = mlen\<rparr>;
                        vars1 = (px_vars st)\<lparr>xv_mask_len := mlen\<rparr> in
                    (case ask_filter pfx_cb p of
                       Filter_err \<Rightarrow>
                         Fail Return_error
                           (st\<lparr>px_infile := s2, pfx_rx := pfx_rx st + 1, px_vars := vars1\<rparr>)
                     | verdict \<Rightarrow>
                         (case for_loop UINT16_MAX 0
                                 (read_pfx_peers_body h pfx_peer_cb peerid_map pathid_map p
                                    (verdict = Filter_skip))
                                 \<lparr>pp_infile = s2, pp_view = px_view st,
                                  pfx_peers_added = 0, pfx_peer_rx = 0, pp_vars = vars1\<rparr> of
                            (Some e, ist) \<Rightarrow>
                              Fail e (st\<lparr>px_infile := pp_infile ist, px_view := pp_view ist,
                                         pfx_rx := pfx_rx st + 1, px_vars := pp_vars ist\<rparr>)
                          | (None, ist) \<Rightarrow>
                              (case READ_VAL16 h (xv_peer_cnt (pp_vars ist)) (pp_infile ist) of
                                 (w, s3) \<Rightarrow>
                                   let peer_cnt = ntohs h w;
                                       st3 = st\<lparr>px_infile := s3, px_view := pp_view ist,
                                                 pfx_rx := pfx_rx st + 1,
                                                 px_vars := (pp_vars ist)\<lparr>xv_peer_cnt := peer_cnt\<rparr>\<rparr>
                                   in if unat peer_cnt \<noteq> pfx_peer_rx ist then Fail Aborted st3
                                      else Continue st3))))))"

definition read_pfxs ::
  "endian \<Rightarrow> (pfx \<Rightarrow> int) option \<Rightarrow> (store_path option \<Rightarrow> int) option \<Rightarrow> uninit \<Rightarrow>
     16 word list \<Rightarrow> path_id option list \<Rightarrow> byte list \<Rightarrow> view option \<Rightarrow>
     (io_error + unit) \<times> byte list \<times> view option" where
  "read_pfxs h pfx_cb pfx_peer_cb u peerid_map pathid_map s iter =
     (case for_loop UINT32_MAX 0
             (read_pfxs_body h pfx_cb pfx_peer_cb (u_ip_len u) peerid_map pathid_map)
             \<lparr>px_infile = s, px_view = iter, pfx_rx = 0, px_vars = u_pfxs u\<rparr> of
        (Some e, st) \<Rightarrow> (Inl e, px_infile st, px_view st)
      | (None, st) \<Rightarrow>
          (case READ_VAL32 h (xv_pfx_cnt (px_vars st)) (px_infile st) of
             (w, s1) \<Rightarrow>
               if pfx_rx st \<noteq> unat (ntohl h w) then (Inl Aborted, s1, px_view st)
               else (Inr (), s1, px_view st)))"

text \<open>
  \<open>bgpview_io_file_read\<close>. \<open>wandio_peek\<close> puts the first four bytes of the file into
  \<open>u32\<close> and answers 0 when there are none; after the view-start magic, of 8 bytes, the
  time is read into \<open>u32\<close> and the view gets it whether it was read whole or not. The
  result is the value returned (0 at the end of the file, 1 for a view) or the way the
  call ended otherwise, with the rest of the file and the caller's view as the call
  leaves it (\<open>None\<close> for a NULL view). \<open>u\<close> is what the uninitialised variables hold.
\<close>

definition bgpview_io_file_read ::
  "uninit \<Rightarrow> endian \<Rightarrow> (peer_sig \<Rightarrow> int) option \<Rightarrow> (pfx \<Rightarrow> int) option \<Rightarrow>
     (store_path option \<Rightarrow> int) option \<Rightarrow> byte list \<Rightarrow> view option \<Rightarrow>
     (io_error + int) \<times> byte list \<times> view option" where
  "bgpview_io_file_read u h peer_cb pfx_cb pfx_peer_cb s view =
     (if s = [] then (Inr 0, s, view)
      else
        (case check_magic VIEW_START_MAGIC s of
           (False, s0) \<Rightarrow> (Inl Return_error, s0, view)
         | (True, s1) \<Rightarrow>
             (case READ_VAL32 h (mem_val h (take 4 s)) s1 of
                (u32, s2) \<Rightarrow>
                  let view1 = map_option (\<lambda>v. bgpview_set_time v (ntohl h u32)) view in
                  (case read_peers h peer_cb u s2 view1 of
                     (Inl e, s3, view2) \<Rightarrow> (Inl e, s3, view2)
                   | (Inr peerid_map, s3, view2) \<Rightarrow>
                       (case read_paths h u s3 view2 of
                          (Inl e, s4, view3) \<Rightarrow> (Inl e, s4, view3)
                        | (Inr pathid_map, s4, view3) \<Rightarrow>
                            (case read_pfxs h pfx_cb pfx_peer_cb u peerid_map pathid_map s4 view3 of
                               (Inl e, s5, view4) \<Rightarrow> (Inl e, s5, view4)
                             | (Inr r, s5, view4) \<Rightarrow>
                                 (Inr 1, snd (check_magic VIEW_END_MAGIC s5), view4)))))))"

section \<open>Concrete views, callbacks and files\<close>

text \<open>
  A view with one active peer (id 1, collector \<open>rrc\<close>, 10.0.0.1, AS 65001), one path in
  the store (index 1) and one active prefix 10.0.0.0/8 that the peer announces with that
  path.
\<close>

definition one_route_view :: view where
  "one_route_view =
     \<lparr> view_time = 5,
       sig_store = [\<lparr>collector_str = [0x72, 0x72, 0x63], peer_ip_addr = Addr_v4 0x0A000001,
                     peer_asnumber = 65001\<rparr>],
       path_store = [\<lparr>sp_idx = 1, sp_is_core = 1, sp_data = [2, 1, 0xE9, 0xFD, 0, 0]\<rparr>],
       peers = [(1, True)],
       pfxs = [(\<lparr>address = Addr_v4 0x0A000000, mask_len = 8\<rparr>,
                [(1, \<lparr>pp_path_id = \<lparr>store_index = 1, is_core = 1\<rparr>, pp_active = True\<rparr>)])] \<rparr>"

text \<open>The same view with its peer and its pfx-peer inactive.\<close>

definition inactive_peer_view :: view where
  "inactive_peer_view =
     \<lparr> view_time = 5,
       sig_store = [\<lparr>collector_str = [0x72, 0x72, 0x63], peer_ip_addr = Addr_v4 0x0A000001,
                     peer_asnumber = 65001\<rparr>],
       path_store = [],
       peers = [(1, False)],
       pfxs = [] \<rparr>"

text \<open>
  The callback of the view sender, \<open>filter_ff\<close> with the default thresholds, on a view
  whose only peer has one active IPv4 prefix and no IPv6 prefix.
\<close>

definition small_peer_filter_ff :: "filter_arg \<Rightarrow> int" where
  "small_peer_filter_ff a =
     filter_ff (viewsender_init_state :: unit viewsender_state) 1 0
       (case a of Filter_peer i \<Rightarrow> FILTER_PEER
                | Filter_pfx p \<Rightarrow> FILTER_PFX
                | Filter_pfx_peer p i \<Rightarrow> FILTER_PFX_PEER)"

text \<open>
  The file of an empty view of time 7 without its last 8 bytes, the end-of-view magic:
  start magic, time, the three empty sections with their end magics and zero counts.
\<close>

definition no_end_magic_file :: "byte list" where
  "no_end_magic_file =
     [0x42, 0x47, 0x50, 0x56, 0x53, 0x54, 0x52, 0x54,   0, 0, 0, 7,
      0x42, 0x47, 0x50, 0x56, 0x50, 0x45, 0x4E, 0x44,   0, 0,
      0x42, 0x47, 0x50, 0x56, 0x50, 0x41, 0x54, 0x48,   0, 0, 0, 0,
      0x42, 0x47, 0x50, 0x56, 0x58, 0x45, 0x4E, 0x44,   0, 0, 0, 0]"


text \<open>
  The file that \<open>bgpview_io_file_write\<close> produces for \<open>one_route_view\<close> on a
  little-endian host, and the view that reading it into an empty view gives: the peer is
  numbered 1 and the path 0 by the stores of the new view.
\<close>

definition one_route_file :: "byte list" where
  "one_route_file =
     [0x42, 0x47, 0x50, 0x56, 0x53, 0x54, 0x52, 0x54,   0, 0, 0, 5,
      0, 1,   3, 0x72, 0x72, 0x63,   4, 10, 0, 0, 1,   0, 0, 0xFD, 0xE9,
      0x42, 0x47, 0x50, 0x56, 0x50, 0x45, 0x4E, 0x44,   0, 1,
      1, 0, 0, 0,   1,   6, 0,   2, 1, 0xE9, 0xFD, 0, 0,
      0x42, 0x47, 0x50, 0x56, 0x50, 0x41, 0x54, 0x48,   0, 0, 0, 1,
      4, 10, 0, 0, 0,   8,   0, 1,   1, 0, 0, 0,
      0x42, 0x47, 0x50, 0x56, 0x50, 0x45, 0x4E, 0x44,   0, 1,
      0x42, 0x47, 0x50, 0x56, 0x58, 0x45, 0x4E, 0x44,   0, 0, 0, 1,
      0x42, 0x47, 0x50, 0x56, 0x56, 0x45, 0x4E, 0x44]"

definition one_route_decoded :: view where
  "one_route_decoded =
     \<lparr> view_time = 5,
       sig_store = [\<lparr>collector_str = [0x72, 0x72, 0x63], peer_ip_addr = Addr_v4 0x0A000001,
                     peer_asnumber = 65001\<rparr>],
       path_store = [\<lparr>sp_idx = 0, sp_is_core = 1, sp_data = [2, 1, 0xE9, 0xFD, 0, 0]\<rparr>],
       peers = [(1, True)],
       pfxs = [(\<lparr>address = Addr_v4 0x0A000000, mask_len = 8\<rparr>,
                [(1, \<lparr>pp_path_id = \<lparr>store_index = 0, is_core = 1\<rparr>, pp_active = True\<rparr>)])] \<rparr>"

text \<open>
  The file that \<open>bgpview_io_file_write\<close> produces for \<open>inactive_peer_view\<close>: the time and
  three empty sections.
\<close>

definition inactive_peer_file :: "byte list" where
  "inactive_peer_file =
     [0x42, 0x47, 0x50, 0x56, 0x53, 0x54, 0x52, 0x54,   0, 0, 0, 5,
      0x42, 0x47, 0x50, 0x56, 0x50, 0x45, 0x4E, 0x44,   0, 0,
      0x42, 0x47, 0x50, 0x56, 0x50, 0x41, 0x54, 0x48,   0, 0, 0, 0,
      0x42, 0x47, 0x50, 0x56, 0x58, 0x45, 0x4E, 0x44,   0, 0, 0, 0,
      0x42, 0x47, 0x50, 0x56, 0x56, 0x45, 0x4E, 0x44]"




definition cut_asn_file :: "byte list" where
  "cut_asn_file =
     [0x42, 0x47, 0x50, 0x56, 0x53, 0x54, 0x52, 0x54,   0, 0, 0, 7,
      0, 1,   3, 0x72, 0x72, 0x63,   4, 10, 0, 0, 1,   0, 0]"

section \<open>Inactive entries of a view\<close>

text \<open>
  Predicates used to state what the reader does to a view: the view has peer \<open>i\<close> in the
  inactive state; the view has the pfx-peer of prefix \<open>p\<close> and peer \<open>i\<close> in the inactive
  state. \<open>no_new_inactive v v'\<close> says that whatever is inactive in \<open>v'\<close> was there, and
  inactive, in \<open>v\<close>.
\<close>

definition inact_peer :: "view \<Rightarrow> 16 word \<Rightarrow> bool" where
  "inact_peer v i = list_ex (\<lambda>(j, a). j = i \<and> \<not> a) (peers v)"

definition inact_pfx_peer :: "view \<Rightarrow> pfx \<Rightarrow> 16 word \<Rightarrow> bool" where
  "inact_pfx_peer v p i =
     list_ex (\<lambda>(q, pps). q = p \<and> list_ex (\<lambda>(j, info). j = i \<and> \<not> pp_active info) pps) (pfxs v)"

definition no_new_inactive :: "view \<Rightarrow> view \<Rightarrow> bool" where
  "no_new_inactive v v' =
     ((\<forall>i. inact_peer v' i \<longrightarrow> inact_peer v i)
      \<and> (\<forall>p i. inact_pfx_peer v' p i \<longrightarrow> inact_pfx_peer v p i))"

text \<open>
  \<open>has_pfx_peer v p i\<close>: the view has a pfx-peer of prefix \<open>p\<close> and peer \<open>i\<close>.
  \<open>view_keeps v v'\<close>: \<open>v'\<close> has the time of \<open>v\<close>, every peer of \<open>v\<close> and every pfx-peer
  of \<open>v\<close>.
\<close>

definition has_pfx_peer :: "view \<Rightarrow> pfx \<Rightarrow> 16 word \<Rightarrow> bool" where
  "has_pfx_peer v p i =
     list_ex (\<lambda>(q, pps). q = p \<and> list_ex (\<lambda>(j, info). j = i) pps) (pfxs v)"






section \<open>The records of a view and the steps of the reader\<close>

text \<open>
  What the writer sends, as lists of records: the active peers with their signatures,
  and the active prefixes with, for each active pfx-peer, the peer id and the index of
  its path in the store. An item whose signature or path cannot be looked up has no
  record.
\<close>

definition peer_records :: "view \<Rightarrow> (16 word \<times> peer_sig) list" where
  "peer_records v =
     concat (map (\<lambda>i. case sig_lookup (sig_store v) i of None \<Rightarrow> [] | Some ps \<Rightarrow> [(i, ps)])
                 (active_peers v))"

definition pfx_peer_records :: "view \<Rightarrow> (16 word \<times> pfx_peer_info) list \<Rightarrow> (16 word \<times> 32 word) list" where
  "pfx_peer_records v pps =
     concat (map (\<lambda>(i, info). case path_store_get_store_path (path_store v) (pp_path_id info) of
                                  None \<Rightarrow> []
                                | Some spath \<Rightarrow> [(i, sp_idx spath)])
                 pps)"

definition pfx_records :: "view \<Rightarrow> (pfx \<times> (16 word \<times> 32 word) list) list" where
  "pfx_records v = map (\<lambda>(p, pps). (p, pfx_peer_records v (active_pfx_peers pps))) (active_pfxs v)"

definition enc_peer :: "16 word \<times> peer_sig \<Rightarrow> byte list" where
  "enc_peer r = (case r of (i, ps) \<Rightarrow> wire_peer i ps)"

definition enc_pfx_peer :: "endian \<Rightarrow> 16 word \<times> 32 word \<Rightarrow> byte list" where
  "enc_pfx_peer h r = (case r of (i, idx) \<Rightarrow> wire_pfx_peer h i idx)"

definition enc_pfx :: "endian \<Rightarrow> pfx \<times> (16 word \<times> 32 word) list \<Rightarrow> byte list" where
  "enc_pfx h r =
     (case r of
        (p, pprs) \<Rightarrow>
          wire_ip (address p) @ [mask_len p]
          @ concat (map (enc_pfx_peer h) pprs)
          @ wire_magic VIEW_PEER_END_MAGIC
          @ be_bytes 2 (word_of_nat (length pprs) :: 16 word))"

text \<open>A fold that stops at the first step that has no result.\<close>

fun fold_opt :: "('r \<Rightarrow> 'a \<Rightarrow> 'a option) \<Rightarrow> 'r list \<Rightarrow> 'a \<Rightarrow> 'a option" where
  "fold_opt f [] a = Some a"
| "fold_opt f (r # rs) a = (case f r a of None \<Rightarrow> None | Some a' \<Rightarrow> fold_opt f rs a')"

text \<open>
  What one iteration of each reader loop does to the rest of the loop state (the view,
  the id map, the counters) when it is given one record and goes on to the next
  iteration; \<open>None\<close> when it does not. These restate the loop bodies without the file.
\<close>

definition peers_step ::
  "16 word \<times> peer_sig \<Rightarrow> view \<times> 16 word list \<times> nat \<Rightarrow> (view \<times> 16 word list \<times> nat) option" where
  "peers_step r a =
     (case r of (i, ps) \<Rightarrow>
      case a of (v, m, n) \<Rightarrow>
        (case bgpview_iter_add_peer v ps of
           (new, v') \<Rightarrow>
             if new = 0 then None
             else Some (bgpview_iter_activate_peer v' new,
                        (if unat i + 1 > length m then m @ replicate (unat i + 1 - length m) 0
                         else m)[unat i := new],
                        n + 1)))"

definition paths_step ::
  "store_path \<Rightarrow> view \<times> path_id option list \<times> nat \<Rightarrow> (view \<times> path_id option list \<times> nat) option" where
  "paths_step sp a =
     (case a of (v, am, n) \<Rightarrow>
        (case grow_path_idmap (sp_idx sp) am of
           None \<Rightarrow> None
         | Some am' \<Rightarrow>
             (case path_store_insert_path (path_store v) (sp_data sp) (sp_is_core sp) of
                (pid, store') \<Rightarrow>
                  Some (v\<lparr>path_store := store'\<rparr>, am'[unat (sp_idx sp) := Some pid], n + 1))))"

definition pfx_peers_step ::
  "16 word list \<Rightarrow> path_id option list \<Rightarrow> pfx \<Rightarrow> 16 word \<times> 32 word \<Rightarrow>
     view \<times> nat \<times> nat \<Rightarrow> (view \<times> nat \<times> nat) option" where
  "pfx_peers_step pm am p r a =
     (case r of (i, idx) \<Rightarrow>
      case a of (v, added, rx) \<Rightarrow>
        if \<not> unat i < length pm then None
        else if \<not> unat idx < length am then None
        else (case am ! unat idx of
                None \<Rightarrow> None
              | Some pid \<Rightarrow>
                  (case bgpview_iter_add_pfx_peer_by_id v p (pm ! unat i) pid of
                     None \<Rightarrow> None
                   | Some v1 \<Rightarrow>
                       (case bgpview_iter_pfx_activate_peer v1 p (pm ! unat i) of
                          (r, v2) \<Rightarrow> if r < 0 then None else Some (v2, added + 1, rx + 1)))))"

definition pfxs_step ::
  "16 word list \<Rightarrow> path_id option list \<Rightarrow> pfx \<times> (16 word \<times> 32 word) list \<Rightarrow>
     view \<times> nat \<Rightarrow> (view \<times> nat) option" where
  "pfxs_step pm am r a =
     (case r of (p, pprs) \<Rightarrow>
      case a of (v, n) \<Rightarrow>
        (case fold_opt (pfx_peers_step pm am p) pprs (v, 0, 0) of
           None \<Rightarrow> None
         | Some (v', added, rx) \<Rightarrow> Some (v', n + 1)))"

text \<open>
  The records that the reader takes for what they are. A peer record must not begin with
  the eight bytes of the end-of-peers magic (peer id 0x4247 and a collector name of 80
  bytes that starts with \<open>VPEND\<close>), which \<open>check_magic\<close> would take for the end of the
  section; the collector name is a C string of at most 255 bytes. A path has at most
  \<open>BUFFER_LEN\<close> bytes, a core flag that is 0 or 1 and an index below \<open>2^30\<close>.
\<close>

definition peer_wire_ok :: "16 word \<times> peer_sig \<Rightarrow> bool" where
  "peer_wire_ok r =
     (case r of
        (i, ps) \<Rightarrow>
          length (collector_str ps) \<le> 255 \<and> 0 \<notin> set (collector_str ps)
          \<and> peer_ip_addr ps \<noteq> Addr_unknown
          \<and> take 8 (wire_peer i ps) \<noteq> wire_magic VIEW_PEER_END_MAGIC)"

definition path_wire_ok :: "store_path \<Rightarrow> bool" where
  "path_wire_ok sp =
     (length (sp_data sp) \<le> BUFFER_LEN \<and> (sp_is_core sp = 0 \<or> sp_is_core sp = 1)
      \<and> unat (sp_idx sp) < 2 ^ 30)"

definition pfx_wire_ok :: "pfx \<times> (16 word \<times> 32 word) list \<Rightarrow> bool" where
  "pfx_wire_ok r =
     (case r of
        (p, pprs) \<Rightarrow>
          address p \<noteq> Addr_unknown \<and> length pprs < 65535
          \<and> list_all (\<lambda>(i, idx). unat idx < 2 ^ 30) pprs)"

text \<open>
  The loop states of the reader put together from the variables, the file and the rest.
\<close>

definition mk_peers :: "peers_vars \<Rightarrow> byte list \<Rightarrow> view \<times> 16 word list \<times> nat \<Rightarrow> peers_state" where
  "mk_peers l s a =
     (case a of (v, m, n) \<Rightarrow>
        \<lparr>ps_infile = s, ps_view = Some v, ps_idmap = m, peers_rx = n, ps_vars = l\<rparr>)"

definition mk_paths ::
  "paths_vars \<Rightarrow> byte list \<Rightarrow> view \<times> path_id option list \<times> nat \<Rightarrow> paths_state" where
  "mk_paths l s a =
     (case a of (v, am, n) \<Rightarrow>
        \<lparr>pa_infile = s, pa_view = Some v, pa_idmap = am, paths_rx = n, pa_vars = l\<rparr>)"

definition mk_pfx_peers :: "pfxs_vars \<Rightarrow> byte list \<Rightarrow> view \<times> nat \<times> nat \<Rightarrow> pfx_peers_state" where
  "mk_pfx_peers l s a =
     (case a of (v, added, rx) \<Rightarrow>
        \<lparr>pp_infile = s, pp_view = Some v, pfx_peers_added = added, pfx_peer_rx = rx,
         pp_vars = l\<rparr>)"

definition mk_pfxs :: "pfxs_vars \<Rightarrow> byte list \<Rightarrow> view \<times> nat \<Rightarrow> pfxs_state" where
  "mk_pfxs l s a =
     (case a of (v, n) \<Rightarrow> \<lparr>px_infile = s, px_view = Some v, pfx_rx = n, px_vars = l\<rparr>)"

text \<open>The peers of a view that has taken \<open>n\<close> new signatures in turn and activated each.\<close>

definition seq_peers :: "nat \<Rightarrow> (16 word \<times> bool) list" where
  "seq_peers n = map (\<lambda>j. (word_of_nat (j + 1), True)) [0..<n]"


text \<open>
  The path store after the paths of a list have been inserted in turn into an empty
  store, when no two of them have the same data and core flag: path \<open>j\<close> of the list gets
  index \<open>j\<close>.
\<close>

definition decoded_paths :: "store_path list \<Rightarrow> store_path list" where
  "decoded_paths sps =
     map (\<lambda>(j, sp). \<lparr>sp_idx = word_of_nat j, sp_is_core = sp_is_core sp, sp_data = sp_data sp\<rparr>)
         (enumerate 0 sps)"

text \<open>
  The pfx-peer that the reader makes of a pfx-peer record, through its two id maps
  (a slot of the path id map that holds nothing stands for no path id at all).
\<close>

definition decode_pfx_peer ::
  "16 word list \<Rightarrow> path_id option list \<Rightarrow> 16 word \<times> 32 word \<Rightarrow> 16 word \<times> pfx_peer_info" where
  "decode_pfx_peer pm am r =
     (case r of
        (i, idx) \<Rightarrow>
          (pm ! unat i,
           \<lparr>pp_path_id = (case am ! unat idx of
                             Some pid \<Rightarrow> pid
                           | None \<Rightarrow> \<lparr>store_index = 0, is_core = 0\<rparr>),
            pp_active = True\<rparr>))"

definition decode_pfx ::
  "16 word list \<Rightarrow> path_id option list \<Rightarrow> pfx \<times> (16 word \<times> 32 word) list \<Rightarrow>
     pfx \<times> (16 word \<times> pfx_peer_info) list" where
  "decode_pfx pm am r = (case r of (p, pprs) \<Rightarrow> (p, map (decode_pfx_peer pm am) pprs))"

section \<open>Views that the file format can carry, and what a file says of a view\<close>

text \<open>
  The conditions under which the writer and the reader are compared. The active peers
  have distinct ids, there are fewer than 65535 of them, each has a signature that makes
  a peer record the reader takes for one, and no two of them have the same signature.
  The paths of the store have distinct indices and distinct contents and make path
  records the reader takes for what they are. The active prefixes are distinct, fewer
  than \<open>2^32 - 1\<close>, of a known address family, and each active pfx-peer of one belongs to
  an active peer, once, and has a path in the store.
\<close>

definition peer_ok :: "view \<Rightarrow> 16 word \<Rightarrow> bool" where
  "peer_ok v i =
     (case sig_lookup (sig_store v) i of None \<Rightarrow> False | Some ps \<Rightarrow> peer_wire_ok (i, ps))"

definition pfx_peer_ok :: "view \<Rightarrow> 16 word \<times> pfx_peer_info \<Rightarrow> bool" where
  "pfx_peer_ok v r =
     (case r of
        (i, info) \<Rightarrow>
          i \<in> set (active_peers v)
          \<and> path_store_get_store_path (path_store v) (pp_path_id info) \<noteq> None)"

definition pfx_ok :: "view \<Rightarrow> pfx \<times> (16 word \<times> pfx_peer_info) list \<Rightarrow> bool" where
  "pfx_ok v e =
     (case e of
        (p, pps) \<Rightarrow>
          address p \<noteq> Addr_unknown
          \<and> distinct (map fst (active_pfx_peers pps))
          \<and> list_all (pfx_peer_ok v) (active_pfx_peers pps))"

definition codec_wf :: "view \<Rightarrow> bool" where
  "codec_wf v =
     (distinct (active_peers v) \<and> length (active_peers v) \<le> 65534
      \<and> list_all (peer_ok v) (active_peers v)
      \<and> distinct (map (sig_lookup (sig_store v)) (active_peers v))
      \<and> distinct (map sp_idx (path_store v))
      \<and> distinct (map (\<lambda>sp. (sp_data sp, sp_is_core sp)) (path_store v))
      \<and> list_all path_wire_ok (path_store v)
      \<and> distinct (map fst (active_pfxs v)) \<and> length (active_pfxs v) < 4294967295
      \<and> list_all (pfx_ok v) (active_pfxs v))"

text \<open>
  What property P5 of the specification compares, with the ids looked up so that a
  renumbering does not show: the time, the signatures of the active peers, and for each
  active prefix the signature of the peer, the encoding of the path and its core flag of
  each active pfx-peer.
\<close>

definition peer_sigs :: "view \<Rightarrow> peer_sig option list" where
  "peer_sigs v = map (sig_lookup (sig_store v)) (active_peers v)"

definition pfx_peer_content ::
  "view \<Rightarrow> 16 word \<times> pfx_peer_info \<Rightarrow> peer_sig option \<times> (byte list \<times> byte) option" where
  "pfx_peer_content v r =
     (case r of
        (i, info) \<Rightarrow>
          (sig_lookup (sig_store v) i,
           map_option (\<lambda>sp. (sp_data sp, sp_is_core sp))
             (path_store_get_store_path (path_store v) (pp_path_id info))))"

definition pfx_content ::
  "view \<Rightarrow> pfx \<times> (16 word \<times> pfx_peer_info) list \<Rightarrow>
     pfx \<times> (peer_sig option \<times> (byte list \<times> byte) option) list" where
  "pfx_content v e = (case e of (p, pps) \<Rightarrow> (p, map (pfx_peer_content v) (active_pfx_peers pps)))"

definition active_content ::
  "view \<Rightarrow> 32 word \<times> peer_sig option list
            \<times> (pfx \<times> (peer_sig option \<times> (byte list \<times> byte) option) list) list" where
  "active_content v = (view_time v, peer_sigs v, map (pfx_content v) (active_pfxs v))"

text \<open>A view in which every peer, every prefix and every pfx-peer is active.\<close>

definition all_active :: "view \<Rightarrow> bool" where
  "all_active v =
     (list_all snd (peers v)
      \<and> list_all (\<lambda>e. snd e \<noteq> [] \<and> list_all (\<lambda>q. pp_active (snd q)) (snd e)) (pfxs v))"

text \<open>
  The records of a view with the lookups done, for a view whose lookups succeed, and the
  view that the reader builds from the records of a view and its two id maps.
\<close>

definition peer_record :: "view \<Rightarrow> 16 word \<Rightarrow> 16 word \<times> peer_sig" where
  "peer_record v i = (i, the (sig_lookup (sig_store v) i))"

definition pfx_peer_record :: "view \<Rightarrow> 16 word \<times> pfx_peer_info \<Rightarrow> 16 word \<times> 32 word" where
  "pfx_peer_record v r =
     (case r of
        (i, info) \<Rightarrow>
          (i, sp_idx (the (path_store_get_store_path (path_store v) (pp_path_id info)))))"

definition pfx_record ::
  "view \<Rightarrow> pfx \<times> (16 word \<times> pfx_peer_info) list \<Rightarrow> pfx \<times> (16 word \<times> 32 word) list" where
  "pfx_record v e = (case e of (p, pps) \<Rightarrow> (p, map (pfx_peer_record v) (active_pfx_peers pps)))"

definition decoded_view :: "16 word list \<Rightarrow> path_id option list \<Rightarrow> view \<Rightarrow> view" where
  "decoded_view pm am v =
     \<lparr> view_time = view_time v,
       sig_store = map (\<lambda>i. snd (peer_record v i)) (active_peers v),
       path_store = decoded_paths (path_store v),
       peers = seq_peers (length (active_peers v)),
       pfxs = map (\<lambda>e. decode_pfx pm am (pfx_record v e)) (active_pfxs v) \<rparr>"

text \<open>The signatures of all the peers of a view, active or not.\<close>

definition view_peer_sigs :: "view \<Rightarrow> peer_sig option list" where
  "view_peer_sigs v = map (\<lambda>x. sig_lookup (sig_store v) (fst x)) (peers v)"

chapter \<open>Properties\<close>

section \<open>\<open>graphite_safe\<close>\<close>

lemma graphite_walk_terminated:
  "CHR 0x00 \<notin> set s \<Longrightarrow>
   graphite_walk (s @ CHR 0x00 # rest) = map graphite_char s @ CHR 0x00 # rest"
  by (induction s) auto

lemma graphite_char_cases:
  "graphite_char c =
     (if c = CHR ''.'' then CHR ''_'' else if c = CHR ''*'' then CHR ''-'' else c)"
  by (simp add: graphite_char_def)

text \<open>
  C8. For a NUL-terminated string \<open>s\<close> (the bytes before the first NUL of the buffer),
  \<open>graphite_safe\<close> returns the same buffer, of the same length, in which every
  \<open>.\<close> of \<open>s\<close> has become \<open>_\<close>, every \<open>*\<close> has become \<open>-\<close> and every other
  character, the terminator and the bytes after it are unchanged; when \<open>s\<close> has neither
  \<open>.\<close> nor \<open>*\<close> the buffer is returned as it was.
\<close>

theorem graphite_safe_spec:
  assumes "CHR 0x00 \<notin> set s"
  shows "\<exists>t. graphite_safe (Some (s @ CHR 0x00 # rest)) = Some (t @ CHR 0x00 # rest)
           \<and> length t = length s
           \<and> (\<forall>i < length s. t ! i = (if s ! i = CHR ''.'' then CHR ''_''
                                      else if s ! i = CHR ''*'' then CHR ''-'' else s ! i))
           \<and> (CHR ''.'' \<notin> set s \<and> CHR ''*'' \<notin> set s \<longrightarrow> t = s)"
proof (intro exI conjI)
  show "graphite_safe (Some (s @ CHR 0x00 # rest)) = Some (map graphite_char s @ CHR 0x00 # rest)"
    using assms by (simp add: graphite_safe_def graphite_walk_terminated)
  show "length (map graphite_char s) = length s" by simp
  show "\<forall>i < length s. map graphite_char s ! i =
          (if s ! i = CHR ''.'' then CHR ''_'' else if s ! i = CHR ''*'' then CHR ''-'' else s ! i)"
    by (simp add: graphite_char_cases)
  show "CHR ''.'' \<notin> set s \<and> CHR ''*'' \<notin> set s \<longrightarrow> map graphite_char s = s"
    by (auto simp: graphite_char_cases intro: map_idI)
qed

theorem graphite_safe_spec_witness:
  "CHR 0x00 \<notin> set ''rrc00.ripe*'' \<and>
   graphite_safe (Some (''rrc00.ripe*'' @ CHR 0x00 # ''x.y'')) = Some (''rrc00_ripe-'' @ CHR 0x00 # ''x.y'')"
  using graphite_safe_spec [of "''rrc00.ripe*''" "''x.y''"]
  by (simp add: graphite_safe_def graphite_char_def)

section \<open>The drain loop\<close>

lemma drain_loop_polls:
  "\<exists>k. snd (drain_loop outq_len poll conn cnt polls) = polls @ replicate k 5000
        \<and> int k \<le> max 0 cnt"
proof (induction outq_len poll conn cnt polls rule: drain_loop.induct)
  case (1 outq_len poll conn cnt polls)
  show ?case
  proof (cases "outq_len conn > 0 \<and> cnt > 0")
    case True
    from "1.IH" [OF True] obtain k where
      k: "snd (drain_loop outq_len poll (poll conn 5000) (cnt - 1) (polls @ [5000]))
            = (polls @ [5000]) @ replicate k 5000"
      and kb: "int k \<le> max 0 (cnt - 1)" by blast
    have "snd (drain_loop outq_len poll conn cnt polls) = polls @ replicate (Suc k) 5000"
      using True k by (subst drain_loop.simps) (simp add: replicate_app_Cons_same)
    moreover have "int (Suc k) \<le> max 0 cnt" using True kb by simp
    ultimately show ?thesis by blast
  next
    case False
    have "snd (drain_loop outq_len poll conn cnt polls) = polls @ replicate 0 5000"
      using False by (subst drain_loop.simps) auto
    then have "snd (drain_loop outq_len poll conn cnt polls) = polls @ replicate 0 5000
                 \<and> int 0 \<le> max 0 cnt"
      by simp
    then show ?thesis by (rule exI)
  qed
qed

lemma sum_list_replicate_int: "sum_list (replicate k (c::int)) = int k * c"
  by (induction k) (simp_all add: algebra_simps)

text \<open>
  C9. Whatever the queue does, the drain loop of \<open>bgpview_io_kafka_destroy\<close> polls at
  most 12 times, every poll has a timeout of 5000 ms, and the timeouts add up to at
  most 60000 ms (12 times 5 seconds).
\<close>

theorem kafka_destroy_drain_bounded:
  "length (bgpview_io_kafka_destroy_drain outq_len poll client) \<le> 12
   \<and> bgpview_io_kafka_destroy_drain outq_len poll client
       = replicate (length (bgpview_io_kafka_destroy_drain outq_len poll client)) 5000
   \<and> sum_list (bgpview_io_kafka_destroy_drain outq_len poll client) \<le> 12 * 5000"
proof -
  have "\<exists>k. bgpview_io_kafka_destroy_drain outq_len poll client = replicate k 5000 \<and> k \<le> 12"
  proof (cases client)
    case None
    then show ?thesis by (simp add: bgpview_io_kafka_destroy_drain_def)
  next
    case (Some cl)
    show ?thesis
    proof (cases "rdk_conn cl")
      case None
      with Some show ?thesis by (simp add: bgpview_io_kafka_destroy_drain_def)
    next
      case (Some conn)
      from drain_loop_polls [of outq_len poll conn 12 "[]"] obtain k where
        "snd (drain_loop outq_len poll conn 12 []) = replicate k 5000" "k \<le> 12" by auto
      with Some \<open>client = Some cl\<close> show ?thesis
        by (auto simp: bgpview_io_kafka_destroy_drain_def)
    qed
  qed
  then obtain k where k: "bgpview_io_kafka_destroy_drain outq_len poll client = replicate k 5000"
    and kb: "k \<le> 12" by blast
  have "int k * 5000 \<le> 12 * 5000" using kb by simp
  then show ?thesis using kb by (simp add: k sum_list_replicate_int)
qed

section \<open>The view sender\<close>

lemma word_div_mult_eq_iff:
  "((v::32 word) = v div s * s) = (v mod s = 0)"
proof -
  have "v div s * s + v mod s = v" by (rule div_mult_mod_eq)
  then show ?thesis by (metis add.right_neutral add_left_cancel)
qed

lemma sync_interval_u32_pos:
  assumes "0 < sync_interval st" "sync_interval st < 2 ^ 31"
  shows "uint (sync_interval_u32 st) = sync_interval st"
proof -
  have "sync_interval st < 2 ^ 32" using assms(2) by simp
  then show ?thesis using assms(1)
    by (simp add: sync_interval_u32_def uint_word_of_int take_bit_int_eq_self)
qed

text \<open>
  C7, as the code has it. Asked about a peer or a pfx-peer, \<open>filter_ff\<close> answers 0
  (drop) exactly when the peer has fewer than \<open>filter_ff_v4cnt\<close> active IPv4 prefixes and
  fewer than \<open>filter_ff_v6cnt\<close> active IPv6 prefixes; asked about a prefix it always
  answers 1. The thresholds are 400000 and 10000 unless the arguments set them.
\<close>

theorem filter_ff_drops_iff:
  "(filter_ff st v4 v6 FILTER_PEER = 0) = (v4 < filter_ff_v4cnt st \<and> v6 < filter_ff_v6cnt st)
   \<and> (filter_ff st v4 v6 FILTER_PFX_PEER = 0) = (v4 < filter_ff_v4cnt st \<and> v6 < filter_ff_v6cnt st)
   \<and> filter_ff st v4 v6 FILTER_PFX = 1
   \<and> filter_ff_v4cnt (viewsender_init_state :: 'v viewsender_state) = 400000
   \<and> filter_ff_v6cnt (viewsender_init_state :: 'v viewsender_state) = 10000"
  by (auto simp: filter_ff_def viewsender_init_state_def FILTER_FF_V4CNT_DEFAULT_def
        FILTER_FF_V6CNT_DEFAULT_def)

text \<open>
  The claim as the specification words it fails: with the default thresholds, a peer
  with no active IPv4 prefix and 10000 active IPv6 prefixes has fewer than 400000 IPv4
  prefixes, and the filter keeps it.
\<close>

theorem filter_ff_v4_only_counterexample:
  "(0::int) < filter_ff_v4cnt (viewsender_init_state :: unit viewsender_state)
   \<and> filter_ff (viewsender_init_state :: unit viewsender_state) 0 10000 FILTER_PEER = 1"
  by (simp add: filter_ff_def viewsender_init_state_def FILTER_FF_V4CNT_DEFAULT_def
        FILTER_FF_V6CNT_DEFAULT_def)

text \<open>
  C6. With a sync interval that is not zero, the Kafka branch of
  \<open>bvc_viewsender_process_view\<close> returns, and: it sends the view with no parent (a sync
  frame) exactly when the view time is a multiple of the sync interval; it sends the view
  against the stored parent when there is one and the time is not a multiple; and with no
  parent and a time that is not a multiple it sends nothing, returns 0 and leaves the
  state as it was. For a positive \<open>sync_interval\<close> the test is the mathematical
  \<open>view_time mod sync_interval = 0\<close>.
\<close>

theorem process_view_sync_or_diff:
  assumes "sync_interval_u32 st \<noteq> 0"
  shows "\<exists>ret sent st'.
           bvc_viewsender_process_view get_time send_ok st view = Inr (ret, sent, st')
         \<and> (sent = [Send_view view None]) = (get_time view mod sync_interval_u32 st = 0)
         \<and> (\<forall>p. parent_view st = Some p \<and> get_time view mod sync_interval_u32 st \<noteq> 0
                \<longrightarrow> sent = [Send_view view (Some p)])
         \<and> (parent_view st = None \<and> get_time view mod sync_interval_u32 st \<noteq> 0
                \<longrightarrow> sent = [] \<and> ret = 0 \<and> st' = st)
         \<and> (0 < sync_interval st \<and> sync_interval st < 2 ^ 31
                \<longrightarrow> (get_time view mod sync_interval_u32 st = 0)
                     = (uint (get_time view) mod sync_interval st = 0))"
proof -
  define t where "t = get_time view"
  define s where "s = sync_interval_u32 st"
  define m where "m = t mod s"
  have eq: "(t = t div s * s) = (m = 0)"
    unfolding m_def by (rule word_div_mult_eq_iff)
  have math: "0 < sync_interval st \<and> sync_interval st < 2 ^ 31
                \<longrightarrow> (m = 0) = (uint t mod sync_interval st = 0)"
  proof
    assume a: "0 < sync_interval st \<and> sync_interval st < 2 ^ 31"
    have "(m = 0) = (uint (t mod s) = 0)" unfolding m_def by (simp only: uint_0_iff)
    also have "\<dots> = (uint t mod uint s = 0)" by (simp only: uint_mod_distrib)
    finally show "(m = 0) = (uint t mod sync_interval st = 0)"
      using a by (simp add: s_def sync_interval_u32_pos)
  qed
  have s0: "s \<noteq> 0" using assms by (simp add: s_def)
  have run: "bvc_viewsender_process_view get_time send_ok st view =
     (if (parent_view st = None \<or> m = 0) \<and> m \<noteq> 0 then Inr (0, [], st)
      else let call = Send_view view (if parent_view st = None \<or> m = 0 then None else parent_view st)
           in if \<not> send_ok call then Inr (- 1, [call], st)
              else Inr (0, [call], st\<lparr>parent_view := Some view\<rparr>))"
    using s0 eq
    by (simp only: bvc_viewsender_process_view_def Let_def t_def [symmetric] s_def [symmetric]
          if_False)
  have goal: "\<exists>ret sent st'.
           bvc_viewsender_process_view get_time send_ok st view = Inr (ret, sent, st')
         \<and> (sent = [Send_view view None]) = (m = 0)
         \<and> (\<forall>p. parent_view st = Some p \<and> m \<noteq> 0 \<longrightarrow> sent = [Send_view view (Some p)])
         \<and> (parent_view st = None \<and> m \<noteq> 0 \<longrightarrow> sent = [] \<and> ret = 0 \<and> st' = st)
         \<and> (0 < sync_interval st \<and> sync_interval st < 2 ^ 31
                \<longrightarrow> (m = 0) = (uint t mod sync_interval st = 0))"
  proof (cases "m = 0")
    case True
    then show ?thesis using math
      by (cases "send_ok (Send_view view None)") (simp_all add: run Let_def)
  next
    case False
    show ?thesis
    proof (cases "parent_view st")
      case None
      then show ?thesis using False math by (simp add: run Let_def)
    next
      case (Some p)
      then show ?thesis using False math
        by (cases "send_ok (Send_view view (Some p))") (simp_all add: run Let_def)
    qed
  qed
  then show ?thesis unfolding m_def t_def s_def .
qed

theorem process_view_sync_or_diff_witness:
  "sync_interval_u32 (viewsender_init_state :: (32 word) viewsender_state) \<noteq> 0
   \<and> bvc_viewsender_process_view (\<lambda>v. v) (\<lambda>c. True) viewsender_init_state (7200 :: 32 word)
       = Inr (0, [Send_view 7200 None], viewsender_init_state\<lparr>parent_view := Some 7200\<rparr>)
   \<and> bvc_viewsender_process_view (\<lambda>v. v) (\<lambda>c. True) viewsender_init_state (7205 :: 32 word)
       = Inr (0, [], viewsender_init_state)
   \<and> bvc_viewsender_process_view (\<lambda>v. v) (\<lambda>c. True)
        (viewsender_init_state\<lparr>parent_view := Some 7200\<rparr>) (7205 :: 32 word)
       = Inr (0, [Send_view 7205 (Some 7200)], viewsender_init_state\<lparr>parent_view := Some 7205\<rparr>)"
  using process_view_sync_or_diff
          [where st = "viewsender_init_state :: (32 word) viewsender_state"
             and get_time = "\<lambda>v. v" and view = 7200 and send_ok = "\<lambda>c. True"]
  by (simp add: bvc_viewsender_process_view_def sync_interval_u32_def viewsender_init_state_def
        SECONDS_BETWEEN_SYNC_def Let_def)

section \<open>Byte order\<close>

lemma length_be_bytes [simp]: "length (be_bytes n w) = n"
  by (induction n arbitrary: w) auto

lemma from_be_snoc: "from_be (bs @ [b]) = push_bit 8 (from_be bs) OR ucast b"
  by (simp add: from_be_def)

lemma be_step: "push_bit 8 (take_bit (8 * n) (drop_bit 8 w)) OR ucast (ucast w :: byte) = take_bit (8 + 8 * n) (w :: 'a::len word)"
proof (rule bit_word_eqI)
  fix k assume kl: "k < LENGTH('a)"
  show "bit (push_bit 8 (take_bit (8 * n) (drop_bit 8 w)) OR ucast (ucast w :: byte)) k = bit (take_bit (8 + 8 * n) w) k"
  proof (cases "k < 8")
    case True
    then show ?thesis using kl by (simp add: bit_or_iff bit_push_bit_iff bit_take_bit_iff bit_ucast_iff)
  next
    case False
    then have "k - 8 + 8 = k" by simp
    with False kl show ?thesis 
      by (auto simp add: bit_or_iff bit_push_bit_iff bit_take_bit_iff bit_ucast_iff bit_drop_bit_eq add.commute)
  qed
qed

lemma from_be_be_bytes_aux:
  "(from_be (be_bytes n (w::'a::len word)) :: 'a word) = take_bit (8 * n) w"
proof (induction n arbitrary: w)
  case 0
  then show ?case by (simp add: from_be_def)
next
  case (Suc n)
  show ?case
    by (simp add: from_be_snoc Suc be_step)
qed

lemma from_be_be_bytes:
  "LENGTH('a::len) \<le> 8 * n \<Longrightarrow> (from_be (be_bytes n (w::'a word)) :: 'a word) = w"
  by (simp add: from_be_be_bytes_aux take_bit_word_eq_self)

lemma from_be_bound:
  "take_bit (8 * length bs) (from_be bs :: 'a::len word) = from_be bs"
proof (induction bs rule: rev_induct)
  case Nil
  then show ?case by (simp add: from_be_def)
next
  case (snoc b bs)
  show ?case
  proof (rule bit_word_eqI)
    fix k assume kl: "k < LENGTH('a)"
    have ih: "bit (from_be bs :: 'a word) j \<Longrightarrow> j < 8 * length bs" for j
      using snoc [symmetric] by (metis bit_take_bit_iff)
    show "bit (take_bit (8 * length (bs @ [b])) (from_be (bs @ [b]) :: 'a word)) k
            = bit (from_be (bs @ [b]) :: 'a word) k"
      using kl ih [of "k - 8"]
      by (auto simp: from_be_snoc bit_take_bit_iff bit_or_iff bit_push_bit_iff bit_ucast_iff
            dest: bit_imp_le_length)
  qed
qed

lemma be_bytes_from_be:
  "length bs = n \<Longrightarrow> 8 * n \<le> LENGTH('a::len) \<Longrightarrow> be_bytes n (from_be bs :: 'a word) = bs"
proof (induction n arbitrary: bs)
  case 0
  then show ?case by simp
next
  case (Suc n)
  then obtain bs' b where bs: "bs = bs' @ [b]" and len: "length bs' = n"
    by (metis length_Suc_conv_rev)
  let ?X = "from_be bs' :: 'a word"
  have bnd: "bit ?X j \<Longrightarrow> j < 8 * n" for j
    using from_be_bound [of bs', where 'a = 'a, symmetric] len by (metis bit_take_bit_iff)
  have low: "(ucast (push_bit 8 ?X OR ucast b) :: byte) = b"
  proof (rule bit_word_eqI)
    fix k assume "k < LENGTH(8)"
    then show "bit (ucast (push_bit 8 ?X OR ucast b) :: byte) k = bit b k"
      using Suc.prems(2)
      by (auto simp: bit_ucast_iff bit_or_iff bit_push_bit_iff dest: bit_imp_le_length)
  qed
  have high: "drop_bit 8 (push_bit 8 ?X OR ucast b) = ?X"
  proof (rule bit_word_eqI)
    fix k assume kl: "k < LENGTH('a)"
    show "bit (drop_bit 8 (push_bit 8 ?X OR ucast b)) k = bit ?X k"
      using kl bnd [of k] Suc.prems(2)
      by (auto simp: bit_drop_bit_eq bit_or_iff bit_push_bit_iff bit_ucast_iff dest: bit_imp_le_length)
  qed
  have "8 * n \<le> LENGTH('a)" using Suc.prems(2) by simp
  then have ih: "be_bytes n ?X = bs'" using Suc.IH [OF len] by simp
  have "be_bytes (Suc n) (push_bit 8 ?X OR ucast b)
          = be_bytes n (drop_bit 8 (push_bit 8 ?X OR ucast b)) @ [ucast (push_bit 8 ?X OR ucast b)]"
    by (rule be_bytes.simps)
  also have "\<dots> = bs' @ [b]" by (simp only: high low ih)
  finally show ?case by (simp only: bs from_be_snoc)
qed

lemma mem_bytes_htons: "mem_bytes h 2 (htons h w) = be_bytes 2 w"
  by (cases h) (simp_all add: mem_bytes_def htons_def be_bytes_from_be)

lemma mem_bytes_htonl: "mem_bytes h 4 (htonl h w) = be_bytes 4 w"
  by (cases h) (simp_all add: mem_bytes_def htonl_def be_bytes_from_be)

lemma ntohs_mem_val: "ntohs h (mem_val h (be_bytes 2 w)) = w"
  by (cases h) (simp_all add: ntohs_def mem_val_def htons_def be_bytes_from_be from_be_be_bytes)

lemma ntohl_mem_val: "ntohl h (mem_val h (be_bytes 4 w)) = w"
  by (cases h) (simp_all add: ntohl_def mem_val_def htonl_def be_bytes_from_be from_be_be_bytes)

lemma mem_val_mem_bytes: "LENGTH('a::len) \<le> 8 * n \<Longrightarrow> mem_val h (mem_bytes h n (w :: 'a word)) = w"
  by (cases h) (simp_all add: mem_val_def mem_bytes_def from_be_be_bytes)

lemma be_bytes_2: "be_bytes 2 w = [ucast (drop_bit 8 w), ucast w]"
  by (simp add: numeral_2_eq_2)

lemma be_bytes_4:
  "be_bytes 4 w = [ucast (drop_bit 24 w), ucast (drop_bit 16 w), ucast (drop_bit 8 w), ucast w]"
proof -
  have "be_bytes (Suc (Suc (Suc (Suc 0)))) w
          = [ucast (drop_bit 24 w), ucast (drop_bit 16 w), ucast (drop_bit 8 w), ucast w]"
    by (simp add: drop_bit_drop_bit)
  moreover have "(4::nat) = Suc (Suc (Suc (Suc 0)))" by simp
  ultimately show ?thesis by (simp only:)
qed

section \<open>The writer and the wire format\<close>

lemma WRITE_MAGIC_wire: "WRITE_MAGIC h m = wire_magic m"
  by (simp add: WRITE_MAGIC_def WRITE_VAL32_def wire_magic_def mem_bytes_htonl)

lemma WRITE_VAL16_htons: "WRITE_VAL16 h (htons h w) = be_bytes 2 w"
  by (simp add: WRITE_VAL16_def mem_bytes_htons)

lemma WRITE_VAL32_htonl: "WRITE_VAL32 h (htonl h w) = be_bytes 4 w"
  by (simp add: WRITE_VAL32_def mem_bytes_htonl)

lemma write_ip_wire: "write_ip ip = Inr bs \<Longrightarrow> bs = wire_ip ip"
  by (auto simp: write_ip_def wire_ip_def WRITE_VAL8_def split: ip_addr.splits)

lemma write_peer_record_wire:
  assumes "write_peer_record h v i = Inr bs"
  shows "\<exists>ps. sig_lookup (sig_store v) i = Some ps \<and> bs = wire_peer i ps
              \<and> length (collector_str ps) \<le> 255 \<and> peer_ip_addr ps \<noteq> Addr_unknown"
proof -
  from assms obtain ps where ps: "sig_lookup (sig_store v) i = Some ps"
    by (auto simp: write_peer_record_def split: option.splits)
  from assms ps have len: "length (collector_str ps) \<le> 255"
    by (auto simp: write_peer_record_def split: if_splits)
  from assms ps len obtain ip where ip: "write_ip (peer_ip_addr ps) = Inr ip"
    by (auto simp: write_peer_record_def split: sum.splits)
  have "peer_ip_addr ps \<noteq> Addr_unknown" using ip by (auto simp: write_ip_def)
  moreover have "bs = wire_peer i ps"
    using assms ps len ip write_ip_wire [OF ip]
    by (simp add: write_peer_record_def wire_peer_def WRITE_VAL16_htons WRITE_VAL32_htonl
          WRITE_VAL8_def)
  ultimately show ?thesis using ps len by blast
qed

lemma write_peers_loop_wire:
  "write_peers_loop h None v ids out n = Inr (out', n') \<Longrightarrow>
   out' = out @ concat (map (\<lambda>i. case sig_lookup (sig_store v) i of
                                      None \<Rightarrow> [] | Some ps \<Rightarrow> wire_peer i ps) ids)
   \<and> n' = n + length ids"
proof (induction ids arbitrary: out n)
  case Nil
  then show ?case by simp
next
  case (Cons i ids)
  from Cons.prems obtain bs where bs: "write_peer_record h v i = Inr bs"
    and rest: "write_peers_loop h None v ids (out @ bs) (n + 1) = Inr (out', n')"
    by (auto simp: ask_filter_def split: sum.splits)
  from write_peer_record_wire [OF bs] obtain ps where
    "sig_lookup (sig_store v) i = Some ps" "bs = wire_peer i ps" by blast
  with Cons.IH [OF rest] show ?case by simp
qed

lemma write_peers_wire: "write_peers h None v = Inr bs \<Longrightarrow> bs = wire_peers v"
  by (auto simp: write_peers_def wire_peers_def WRITE_MAGIC_wire WRITE_VAL16_htons
        split: sum.splits if_splits dest!: write_peers_loop_wire)

lemma write_path_record_wire: "write_path_record h = wire_path h"
  by (rule ext)
     (simp add: write_path_record_def wire_path_def Let_def WRITE_VAL32_def WRITE_VAL16_def
        WRITE_VAL8_def)

lemma write_paths_wire: "write_paths h v = Inr (wire_paths h v)"
  by (simp add: write_paths_def wire_paths_def Let_def WRITE_MAGIC_wire WRITE_VAL32_htonl
        write_path_record_wire)

lemma write_pfx_peers_wire:
  "write_pfx_peers h None v p pps out n = Inr (out', n') \<Longrightarrow>
   out' = out @ wire_pfx_peers h v pps \<and> n' = n + length pps"
proof (induction pps arbitrary: out n)
  case Nil
  then show ?case by (simp add: wire_pfx_peers_def)
next
  case (Cons a pps)
  obtain i info where a: "a = (i, info)" by (cases a)
  from Cons.prems a obtain sp where
    sp: "path_store_get_store_path (path_store v) (pp_path_id info) = Some sp"
    and rest: "write_pfx_peers h None v p pps
                 (out @ WRITE_VAL16 h (htons h i) @ WRITE_VAL32 h (sp_idx sp)) (n + 1)
               = Inr (out', n')"
    by (auto simp: ask_filter_def split: if_splits option.splits)
  from Cons.IH [OF rest] sp a show ?case
    by (simp add: wire_pfx_peers_def wire_pfx_peer_def WRITE_VAL16_htons WRITE_VAL32_def)
qed

lemma write_pfxs_loop_wire:
  "write_pfxs_loop h None v entries out n = Inr (out', n') \<Longrightarrow>
   \<forall>(p, pps) \<in> set entries. active_pfx_peers pps \<noteq> [] \<Longrightarrow>
   out' = out @ concat (map (wire_pfx h v) entries) \<and> n' = n + length entries"
proof (induction entries arbitrary: out n)
  case Nil
  then show ?case by simp
next
  case (Cons e entries)
  obtain p pps where e: "e = (p, pps)" by (cases e)
  have ne: "active_pfx_peers pps \<noteq> []" using Cons.prems(2) e by simp
  from Cons.prems(1) e obtain ip where ip: "write_ip (address p) = Inr ip"
    by (auto simp: ask_filter_def split: sum.splits)
  from Cons.prems(1) e ip obtain o1 c1 where
    pp: "write_pfx_peers h None v p (active_pfx_peers pps) (out @ ip @ WRITE_VAL8 (mask_len p)) 0
           = Inr (o1, c1)"
    by (auto simp: ask_filter_def split: sum.splits)
  from write_pfx_peers_wire [OF pp] have
    o1: "o1 = (out @ ip @ WRITE_VAL8 (mask_len p)) @ wire_pfx_peers h v (active_pfx_peers pps)"
    and c1: "c1 = length (active_pfx_peers pps)" by simp_all
  have c1pos: "c1 \<noteq> 0" using c1 ne by simp
  from Cons.prems(1) e ip pp c1pos have rest:
    "write_pfxs_loop h None v entries
       (o1 @ WRITE_MAGIC h VIEW_PEER_END_MAGIC @ WRITE_VAL16 h (htons h (word_of_nat c1))) (n + 1)
     = Inr (out', n')"
    by (simp add: ask_filter_def)
  have "\<forall>(p, pps) \<in> set entries. active_pfx_peers pps \<noteq> []" using Cons.prems(2) by simp
  from Cons.IH [OF rest this] show ?case
    using write_ip_wire [OF ip]
    by (simp add: e o1 c1 wire_pfx_def WRITE_MAGIC_wire WRITE_VAL16_htons WRITE_VAL8_def)
qed

lemma write_pfxs_wire: "write_pfxs h None v = Inr bs \<Longrightarrow> bs = wire_pfxs h v"
proof -
  assume a: "write_pfxs h None v = Inr bs"
  then obtain out n where l: "write_pfxs_loop h None v (active_pfxs v) [] 0 = Inr (out, n)"
    by (auto simp: write_pfxs_def split: sum.splits)
  have "\<forall>(p, pps) \<in> set (active_pfxs v). active_pfx_peers pps \<noteq> []"
    by (auto simp: active_pfxs_def)
  from write_pfxs_loop_wire [OF l this] a l show ?thesis
    by (simp add: write_pfxs_def wire_pfxs_def WRITE_MAGIC_wire WRITE_VAL32_htonl)
qed

lemma file_write_wire:
  "bgpview_io_file_write h None (Some v) = Inr bs \<Longrightarrow> bs = wire_view h v"
  by (auto simp: bgpview_io_file_write_def wire_view_def WRITE_MAGIC_wire WRITE_VAL32_htonl
        bgpview_get_time_def write_paths_wire
        split: sum.splits dest!: write_peers_wire write_pfxs_wire)

section \<open>Reading into a variable\<close>

lemma READ_VAL_length: "length old = n \<Longrightarrow> length (fst (READ_VAL n old s)) = n"
  by (auto simp: READ_VAL_def wandio_read_def)

lemma READ_VAL_full: "n \<le> length s \<Longrightarrow> READ_VAL n old s = (take n s @ drop n old, drop n s)"
  by (simp add: READ_VAL_def wandio_read_def)

lemma READ_VAL_eof: "READ_VAL n old [] = (old, [])"
  by (simp add: READ_VAL_def wandio_read_def)

lemma READ_VAL_rest: "snd (READ_VAL n old s) = drop n s"
  by (simp add: READ_VAL_def wandio_read_def)

lemma READ_VAL8_Cons: "READ_VAL8 old (b # s) = (b, s)"
  by (simp add: READ_VAL8_def READ_VAL_def wandio_read_def)

lemma READ_VAL8_Nil: "READ_VAL8 old [] = (old, [])"
  by (simp add: READ_VAL8_def READ_VAL_def wandio_read_def)

lemma length_mem_bytes [simp]: "length (mem_bytes h n w) = n"
  by (cases h) (simp_all add: mem_bytes_def)

lemma READ_VAL16_full: "2 \<le> length s \<Longrightarrow> READ_VAL16 h old s = (mem_val h (take 2 s), drop 2 s)"
  by (simp add: READ_VAL16_def READ_VAL_full)

lemma READ_VAL32_full: "4 \<le> length s \<Longrightarrow> READ_VAL32 h old s = (mem_val h (take 4 s), drop 4 s)"
  by (simp add: READ_VAL32_def READ_VAL_full)

lemma READ_VAL16_eof: "READ_VAL16 h old [] = (old, [])"
  by (simp add: READ_VAL16_def READ_VAL_eof mem_val_mem_bytes)

lemma READ_VAL32_eof: "READ_VAL32 h old [] = (old, [])"
  by (simp add: READ_VAL32_def READ_VAL_eof mem_val_mem_bytes)

lemma READ_VAL16_rest: "snd (READ_VAL16 h old s) = drop 2 s"
  by (simp add: READ_VAL16_def READ_VAL_def wandio_read_def)

lemma READ_VAL32_rest: "snd (READ_VAL32 h old s) = drop 4 s"
  by (simp add: READ_VAL32_def READ_VAL_def wandio_read_def)

lemma READ_VAL8_rest: "snd (READ_VAL8 old s) = drop 1 s"
  by (simp add: READ_VAL8_def READ_VAL_def wandio_read_def)

text \<open>
  At the end of the file \<open>read_ip\<close> returns -1 whatever its variable \<open>len\<close> holds, and
  elsewhere the variable is read whole: what it held does not matter.
\<close>

lemma read_ip_uninit: "read_ip a s = read_ip b s"
  by (cases s) (simp_all add: read_ip_def READ_VAL8_Cons READ_VAL8_Nil wandio_read_def)

section \<open>The codec on concrete inputs\<close>

lemmas bytes_eval =
  mem_bytes_def mem_val_def be_bytes_2 be_bytes_4 htons_def htonl_def ntohs_def ntohl_def
  from_be_def WRITE_VAL8_def WRITE_VAL16_def WRITE_VAL32_def WRITE_MAGIC_def wire_magic_def
  VIEW_MAGIC_def VIEW_START_MAGIC_def VIEW_END_MAGIC_def VIEW_PEER_END_MAGIC_def
  VIEW_PATH_END_MAGIC_def VIEW_PFX_END_MAGIC_def

lemmas writer_eval =
  bgpview_io_file_write_def write_peers_def write_peer_record_def write_paths_def
  write_path_record_def write_pfxs_def write_ip_def ask_filter_def active_peers_def
  active_pfxs_def active_pfx_peers_def sig_lookup_def path_store_get_store_path_def
  bgpview_get_time_def Let_def

lemmas reader_eval =
  bgpview_io_file_read_def read_peers_def read_peers_body_def read_peer_record_def
  read_paths_def read_paths_body_def read_path_record_def grow_path_idmap_def
  read_pfxs_def read_pfxs_body_def read_pfx_peers_body_def read_ip_def
  check_magic_def READ_VAL8_Cons READ_VAL8_Nil READ_VAL16_full READ_VAL32_full
  READ_VAL16_eof READ_VAL32_eof wandio_read_def
  for_loop.simps UINT16_MAX_def UINT32_MAX_def BUFFER_LEN_def ask_filter_def Let_def

lemmas view_eval =
  bgpview_set_time_def bgpview_iter_add_peer_def bgpview_iter_activate_peer_def
  sig_intern_def path_store_insert_path_def path_store_get_store_path_def
  bgpview_iter_add_pfx_peer_by_id_def bgpview_iter_pfx_activate_peer_def empty_view_def

lemma one_route_view_file:
  "bgpview_io_file_write Little_endian None (Some one_route_view) =
     Inr [0x42, 0x47, 0x50, 0x56, 0x53, 0x54, 0x52, 0x54,   0, 0, 0, 5,
          0, 1,   3, 0x72, 0x72, 0x63,   4, 10, 0, 0, 1,   0, 0, 0xFD, 0xE9,
          0x42, 0x47, 0x50, 0x56, 0x50, 0x45, 0x4E, 0x44,   0, 1,
          1, 0, 0, 0,   1,   6, 0,   2, 1, 0xE9, 0xFD, 0, 0,
          0x42, 0x47, 0x50, 0x56, 0x50, 0x41, 0x54, 0x48,   0, 0, 0, 1,
          4, 10, 0, 0, 0,   8,   0, 1,   1, 0, 0, 0,
          0x42, 0x47, 0x50, 0x56, 0x50, 0x45, 0x4E, 0x44,   0, 1,
          0x42, 0x47, 0x50, 0x56, 0x58, 0x45, 0x4E, 0x44,   0, 0, 0, 1,
          0x42, 0x47, 0x50, 0x56, 0x56, 0x45, 0x4E, 0x44]"
  by (simp add: one_route_view_def writer_eval bytes_eval)

text \<open>
  C5, as the code has it. What \<open>bgpview_io_file_write\<close> writes (with no callback) is the
  wire format in which the magics, the time, the peer ids, the peer AS numbers and the
  four cross-check counts are big-endian on every host, and the path index (in the path
  section and in the pfx-peer records) and the path length are in the byte order of the
  writing host, like the path data.
\<close>

theorem file_write_byte_order:
  assumes "bgpview_io_file_write h None (Some v) = Inr bs"
  shows "bs = wire_view h v"
  using assms by (rule file_write_wire)

theorem file_write_byte_order_witness:
  "bgpview_io_file_write Little_endian None (Some one_route_view) =
     Inr [0x42, 0x47, 0x50, 0x56, 0x53, 0x54, 0x52, 0x54,   0, 0, 0, 5,
          0, 1,   3, 0x72, 0x72, 0x63,   4, 10, 0, 0, 1,   0, 0, 0xFD, 0xE9,
          0x42, 0x47, 0x50, 0x56, 0x50, 0x45, 0x4E, 0x44,   0, 1,
          1, 0, 0, 0,   1,   6, 0,   2, 1, 0xE9, 0xFD, 0, 0,
          0x42, 0x47, 0x50, 0x56, 0x50, 0x41, 0x54, 0x48,   0, 0, 0, 1,
          4, 10, 0, 0, 0,   8,   0, 1,   1, 0, 0, 0,
          0x42, 0x47, 0x50, 0x56, 0x50, 0x45, 0x4E, 0x44,   0, 1,
          0x42, 0x47, 0x50, 0x56, 0x58, 0x45, 0x4E, 0x44,   0, 0, 0, 1,
          0x42, 0x47, 0x50, 0x56, 0x56, 0x45, 0x4E, 0x44]
   \<and> wire_view Little_endian one_route_view =
         [0x42, 0x47, 0x50, 0x56, 0x53, 0x54, 0x52, 0x54,   0, 0, 0, 5,
          0, 1,   3, 0x72, 0x72, 0x63,   4, 10, 0, 0, 1,   0, 0, 0xFD, 0xE9,
          0x42, 0x47, 0x50, 0x56, 0x50, 0x45, 0x4E, 0x44,   0, 1,
          1, 0, 0, 0,   1,   6, 0,   2, 1, 0xE9, 0xFD, 0, 0,
          0x42, 0x47, 0x50, 0x56, 0x50, 0x41, 0x54, 0x48,   0, 0, 0, 1,
          4, 10, 0, 0, 0,   8,   0, 1,   1, 0, 0, 0,
          0x42, 0x47, 0x50, 0x56, 0x50, 0x45, 0x4E, 0x44,   0, 1,
          0x42, 0x47, 0x50, 0x56, 0x58, 0x45, 0x4E, 0x44,   0, 0, 0, 1,
          0x42, 0x47, 0x50, 0x56, 0x56, 0x45, 0x4E, 0x44]"
  using file_write_byte_order [OF one_route_view_file] one_route_view_file by simp

text \<open>
  The claim as the specification words it fails on a little-endian host: the path with
  index 1 is written with the index bytes 1, 0, 0, 0 and the length bytes 6, 0, and the
  pfx-peer record carries the index as 1, 0, 0, 0 after the big-endian peer id, while
  the big-endian bytes of 1 are 0, 0, 0, 1.
\<close>

theorem path_idx_host_order_counterexample:
  "write_paths Little_endian one_route_view =
     Inr ([1, 0, 0, 0] @ [1] @ [6, 0] @ [2, 1, 0xE9, 0xFD, 0, 0]
          @ [0x42, 0x47, 0x50, 0x56, 0x50, 0x41, 0x54, 0x48] @ [0, 0, 0, 1])
   \<and> write_pfx_peers Little_endian None one_route_view
         \<lparr>address = Addr_v4 0x0A000000, mask_len = 8\<rparr>
         [(1, \<lparr>pp_path_id = \<lparr>store_index = 1, is_core = 1\<rparr>, pp_active = True\<rparr>)] [] 0
       = Inr ([0, 1] @ [1, 0, 0, 0], 1)
   \<and> be_bytes 4 (1 :: 32 word) = [0, 0, 0, 1]"
  by (simp add: one_route_view_def writer_eval bytes_eval)

text \<open>
  C4 on a concrete view. \<open>filter_ff\<close> keeps every prefix and drops the only peer of
  \<open>one_route_view\<close>, so every pfx-peer of the prefix 10.0.0.0/8 is filtered out. The
  prefix section that \<open>write_pfxs\<close> produces still begins with the address and mask
  length of that prefix (4, 10, 0, 0, 0, 8); the end magic and the count 0 follow.
\<close>

theorem write_pfxs_filtered_prefix_bytes:
  "small_peer_filter_ff (Filter_pfx \<lparr>address = Addr_v4 0x0A000000, mask_len = 8\<rparr>) = 1
   \<and> small_peer_filter_ff (Filter_pfx_peer \<lparr>address = Addr_v4 0x0A000000, mask_len = 8\<rparr> 1) = 0
   \<and> write_pfxs Little_endian (Some small_peer_filter_ff) one_route_view =
       Inr ([4, 10, 0, 0, 0, 8]
            @ [0x42, 0x47, 0x50, 0x56, 0x58, 0x45, 0x4E, 0x44] @ [0, 0, 0, 0])"
  by (simp add: one_route_view_def small_peer_filter_ff_def filter_ff_def
        viewsender_init_state_def FILTER_FF_V4CNT_DEFAULT_def FILTER_FF_V6CNT_DEFAULT_def
        writer_eval bytes_eval)

text \<open>
  C3 on a concrete file. The file of an empty view without the end-of-view magic is read
  to its end; \<open>check_magic\<close> does not find the end magic, and \<open>bgpview_io_file_read\<close>
  returns 1, a valid view, whatever its uninitialised variables hold.
\<close>

theorem file_read_missing_end_magic:
  "fst (check_magic VIEW_END_MAGIC []) = False
   \<and> (\<forall>u. bgpview_io_file_read u Little_endian None None None no_end_magic_file
               (Some empty_view)
             = (Inr 1, [], Some (empty_view\<lparr>view_time := 7\<rparr>)))"
  by (simp add: no_end_magic_file_def reader_eval bytes_eval view_eval)

section \<open>The reader activates what it inserts\<close>


lemma for_loop_None_invariant:
  assumes "for_loop bound i body s = (None, s')" and "P s"
    and "\<And>x y. P x \<Longrightarrow> body x = Continue y \<Longrightarrow> P y"
    and "\<And>x y. P x \<Longrightarrow> body x = Break y \<Longrightarrow> P y"
  shows "P s'"
  using assms
proof (induction bound i body s rule: for_loop.induct)
  case (1 bound i body s)
  note run = "1.prems"(1) and Ps = "1.prems"(2) and C = "1.prems"(3) and B = "1.prems"(4)
  show ?case
  proof (cases "i < bound")
    case False
    then have "s' = s" using run by (subst (asm) for_loop.simps) simp
    then show ?thesis using Ps by simp
  next
    case True
    show ?thesis
    proof (cases "body s")
      case (Break y)
      have "s' = y" using run by (subst (asm) for_loop.simps) (simp add: True Break)
      then show ?thesis using B [OF Ps Break] by simp
    next
      case (Continue y)
      have "P y" using C [OF Ps Continue] .
      moreover have "for_loop bound (Suc i) body y = (None, s')"
        using run by (subst (asm) for_loop.simps) (simp add: True Continue)
      ultimately show ?thesis using "1.IH" [OF True Continue] C B by blast
    next
      case (Fail e y)
      have False using run by (subst (asm) for_loop.simps) (simp add: True Fail)
      then show ?thesis ..
    qed
  qed
qed

lemma inact_peer_iff: "inact_peer v i = ((i, False) \<in> set (peers v))"
  by (auto simp: inact_peer_def list_ex_iff)

lemma inact_pfx_peer_iff:
  "inact_pfx_peer v p i =
     (\<exists>pps info. (p, pps) \<in> set (pfxs v) \<and> (i, info) \<in> set pps \<and> \<not> pp_active info)"
  by (auto simp: inact_pfx_peer_def list_ex_iff)

lemma no_new_inactive_refl: "no_new_inactive v v"
  by (simp add: no_new_inactive_def)

lemma no_new_inactive_trans:
  "no_new_inactive a b \<Longrightarrow> no_new_inactive b c \<Longrightarrow> no_new_inactive a c"
  by (simp add: no_new_inactive_def)

lemma no_new_inactive_same:
  "peers v' = peers v \<Longrightarrow> pfxs v' = pfxs v \<Longrightarrow> no_new_inactive v v'"
  by (simp add: no_new_inactive_def inact_peer_iff inact_pfx_peer_iff)

lemma set_alist_set: "set (alist_set k v l) \<subseteq> insert (k, v) (set l)"
  by (induction k v l rule: alist_set.induct) auto

lemma map_of_alist_set: "map_of (alist_set k v l) k = Some v"
  by (induction k v l rule: alist_set.induct) auto

lemma alist_set_twice: "alist_set k v (alist_set k v' l) = alist_set k v l"
  by (induction k v' l rule: alist_set.induct) auto

lemma add_peer_activate_no_new_inactive:
  assumes "bgpview_iter_add_peer v ps = (i, v')"
  shows "no_new_inactive v (bgpview_iter_activate_peer v' i)"
proof -
  have pf: "pfxs (bgpview_iter_activate_peer v' i) = pfxs v"
    using assms by (auto simp: bgpview_iter_add_peer_def bgpview_iter_activate_peer_def
        split: option.splits)
  have "set (peers v') \<subseteq> insert (i, False) (set (peers v))"
    using assms by (auto simp: bgpview_iter_add_peer_def split: option.splits if_splits)
  then have "(j, False) \<in> set (peers (bgpview_iter_activate_peer v' i)) \<Longrightarrow>
             (j, False) \<in> set (peers v)" for j
    by (auto simp: bgpview_iter_activate_peer_def split: if_splits)
  then show ?thesis
    by (simp add: no_new_inactive_def inact_peer_iff inact_pfx_peer_iff pf)
qed

lemma activate_peer_no_new_inactive: "no_new_inactive v (bgpview_iter_activate_peer v i)"
  by (auto simp: no_new_inactive_def inact_peer_iff inact_pfx_peer_iff
        bgpview_iter_activate_peer_def split: if_splits)

lemma add_pfx_peer_activate_no_new_inactive:
  assumes add: "bgpview_iter_add_pfx_peer_by_id v p i pid = Some v1"
    and act: "bgpview_iter_pfx_activate_peer v1 p i = (r, v2)"
  shows "no_new_inactive v v2 \<and> 0 \<le> r"
proof -
  define old where "old = (case map_of (pfxs v) p of None \<Rightarrow> [] | Some pps \<Rightarrow> pps)"
  define new where "new = alist_set i \<lparr>pp_path_id = pid, pp_active = False\<rparr> old"
  have v1: "v1 = v\<lparr>pfxs := alist_set p new (pfxs v)\<rparr>"
    using add by (auto simp: bgpview_iter_add_pfx_peer_by_id_def Let_def old_def new_def
        split: if_splits)
  have m1: "map_of (pfxs v1) p = Some new" by (simp add: v1 map_of_alist_set)
  have m2: "map_of new i = Some \<lparr>pp_path_id = pid, pp_active = False\<rparr>"
    by (simp add: new_def map_of_alist_set)
  define fin where "fin = alist_set i \<lparr>pp_path_id = pid, pp_active = True\<rparr> old"
  have "(r, v2) = (1, bgpview_iter_activate_peer
                        (v1\<lparr>pfxs := alist_set p
                                        (alist_set i \<lparr>pp_path_id = pid, pp_active = True\<rparr> new)
                                        (pfxs v1)\<rparr>) i)"
    using act by (simp add: bgpview_iter_pfx_activate_peer_def m1 m2)
  then have v2: "v2 = bgpview_iter_activate_peer (v\<lparr>pfxs := alist_set p fin (pfxs v)\<rparr>) i"
    and r: "r = 1"
    by (simp_all add: v1 new_def fin_def alist_set_twice)
  have oldsub: "(j, info) \<in> set old \<Longrightarrow> \<exists>pps. (p, pps) \<in> set (pfxs v) \<and> (j, info) \<in> set pps"
    for j info
    by (auto simp: old_def split: option.splits dest: map_of_SomeD map_of_SomeD [OF sym])
  have "no_new_inactive v (v\<lparr>pfxs := alist_set p fin (pfxs v)\<rparr>)"
  proof -
    have "\<exists>pps0 info0. (q, pps0) \<in> set (pfxs v) \<and> (j, info0) \<in> set pps0 \<and> \<not> pp_active info0"
      if a: "(q, pps) \<in> set (alist_set p fin (pfxs v))" "(j, info) \<in> set pps" "\<not> pp_active info"
      for q pps j info
    proof (cases "(q, pps) \<in> set (pfxs v)")
      case True
      then show ?thesis using a by blast
    next
      case False
      then have qp: "q = p" "pps = fin" using a(1) set_alist_set [of p fin "pfxs v"] by auto
      have "(j, info) \<in> insert (i, \<lparr>pp_path_id = pid, pp_active = True\<rparr>) (set old)"
        using a(2) qp set_alist_set [of i _ old] by (auto simp: fin_def)
      then have "(j, info) \<in> set old" using a(3) by auto
      then show ?thesis using oldsub a(3) qp by blast
    qed
    then show ?thesis
      by (auto simp: no_new_inactive_def inact_peer_iff inact_pfx_peer_iff)
  qed
  then have "no_new_inactive v v2"
    unfolding v2 by (rule no_new_inactive_trans) (rule activate_peer_no_new_inactive)
  then show ?thesis using r by simp
qed

lemma has_pfx_peer_iff:
  "has_pfx_peer v p i = (\<exists>pps info. (p, pps) \<in> set (pfxs v) \<and> (i, info) \<in> set pps)"
  by (auto simp: has_pfx_peer_def list_ex_iff)












lemma path_store_update_no_new_inactive: "no_new_inactive v (v\<lparr>path_store := x\<rparr>)"
  by (simp add: no_new_inactive_same)



lemma rel_option_nni_refl: "rel_option no_new_inactive x x"
  by (cases x) (simp_all add: no_new_inactive_refl)

lemma rel_option_nni_trans:
  "rel_option no_new_inactive a b \<Longrightarrow> rel_option no_new_inactive b c \<Longrightarrow>
   rel_option no_new_inactive a c"
  by (cases a; cases b; cases c) (auto intro: no_new_inactive_trans)



lemma read_peers_body_nni:
  assumes "read_peers_body h cb l0 st = Continue st' \<or> read_peers_body h cb l0 st = Break st'"
  shows "rel_option no_new_inactive (ps_view st) (ps_view st')"
  using assms unfolding read_peers_body_def Let_def
  by (auto simp: rel_option_nni_refl no_new_inactive_refl
        split: prod.splits bool.splits sum.splits option.splits filter_result.splits if_splits
        dest: add_peer_activate_no_new_inactive)


lemma read_paths_body_nni:
  assumes "read_paths_body h st = Continue st' \<or> read_paths_body h st = Break st'"
  shows "rel_option no_new_inactive (pa_view st) (pa_view st')"
  using assms unfolding read_paths_body_def Let_def
  by (auto simp: rel_option_nni_refl no_new_inactive_refl path_store_update_no_new_inactive
        split: prod.splits bool.splits sum.splits option.splits if_splits)



lemma read_pfx_peers_body_nni:
  assumes "read_pfx_peers_body h cb pm am p skip st = Continue st'
           \<or> read_pfx_peers_body h cb pm am p skip st = Break st'"
  shows "rel_option no_new_inactive (pp_view st) (pp_view st')"
  using assms unfolding read_pfx_peers_body_def Let_def
  by (auto simp: rel_option_nni_refl no_new_inactive_refl
        split: prod.splits bool.splits sum.splits option.splits filter_result.splits if_splits
        dest: add_pfx_peer_activate_no_new_inactive)

lemma read_pfx_peers_loop_nni:
  assumes "for_loop bound i (read_pfx_peers_body h cb pm am p skip) ist0 = (None, ist)"
  shows "rel_option no_new_inactive (pp_view ist0) (pp_view ist)"
  by (rule for_loop_None_invariant
        [OF assms, where P = "\<lambda>x. rel_option no_new_inactive (pp_view ist0) (pp_view x)"])
     (auto simp: rel_option_nni_refl
        intro: rel_option_nni_trans [OF _ read_pfx_peers_body_nni])


lemma read_pfxs_body_nni:
  assumes "read_pfxs_body h pfx_cb cb l0 pm am st = Continue st'
           \<or> read_pfxs_body h pfx_cb cb l0 pm am st = Break st'"
  shows "rel_option no_new_inactive (px_view st) (px_view st')"
  using assms unfolding read_pfxs_body_def Let_def
  by (auto simp: rel_option_nni_refl
        split: prod.splits bool.splits sum.splits option.splits filter_result.splits if_splits
        dest!: read_pfx_peers_loop_nni)


lemma read_peers_nni:
  assumes "read_peers h cb u s iter = (Inr m, s', iter')"
  shows "rel_option no_new_inactive iter iter'"
proof -
  let ?st0 = "\<lparr>ps_infile = s, ps_view = iter, ps_idmap = [], peers_rx = 0, ps_vars = u_peers u\<rparr>"
  obtain st where l: "for_loop UINT16_MAX 0 (read_peers_body h cb (u_ip_len u)) ?st0 = (None, st)"
    and v: "iter' = ps_view st"
    using assms unfolding read_peers_def
    by (auto split: prod.splits option.splits if_splits)
  have "rel_option no_new_inactive iter (ps_view st)"
    by (rule for_loop_None_invariant
          [OF l, where P = "\<lambda>x. rel_option no_new_inactive iter (ps_view x)"])
       (auto simp: rel_option_nni_refl intro: rel_option_nni_trans [OF _ read_peers_body_nni])
  then show ?thesis using v by simp
qed


lemma read_paths_nni:
  assumes "read_paths h u s iter = (Inr m, s', iter')"
  shows "rel_option no_new_inactive iter iter'"
proof -
  let ?st0 = "\<lparr>pa_infile = s, pa_view = iter, pa_idmap = [], paths_rx = 0, pa_vars = u_paths u\<rparr>"
  obtain st where l: "for_loop UINT32_MAX 0 (read_paths_body h) ?st0 = (None, st)"
    and v: "iter' = pa_view st"
    using assms unfolding read_paths_def
    by (auto split: prod.splits option.splits if_splits)
  have "rel_option no_new_inactive iter (pa_view st)"
    by (rule for_loop_None_invariant
          [OF l, where P = "\<lambda>x. rel_option no_new_inactive iter (pa_view x)"])
       (auto simp: rel_option_nni_refl intro: rel_option_nni_trans [OF _ read_paths_body_nni])
  then show ?thesis using v by simp
qed


lemma read_pfxs_nni:
  assumes "read_pfxs h pfx_cb cb u pm am s iter = (Inr r0, s', iter')"
  shows "rel_option no_new_inactive iter iter'"
proof -
  let ?st0 = "\<lparr>px_infile = s, px_view = iter, pfx_rx = 0, px_vars = u_pfxs u\<rparr>"
  obtain st where l: "for_loop UINT32_MAX 0 (read_pfxs_body h pfx_cb cb (u_ip_len u) pm am) ?st0 = (None, st)"
    and v: "iter' = px_view st"
    using assms unfolding read_pfxs_def
    by (auto split: prod.splits option.splits if_splits)
  have "rel_option no_new_inactive iter (px_view st)"
    by (rule for_loop_None_invariant
          [OF l, where P = "\<lambda>x. rel_option no_new_inactive iter (px_view x)"])
       (auto simp: rel_option_nni_refl intro: rel_option_nni_trans [OF _ read_pfxs_body_nni])
  then show ?thesis using v by simp
qed

section \<open>What the reader keeps of the active content\<close>





























section \<open>What a read does to the caller's view\<close>

lemma one_route_file_read:
  "bgpview_io_file_read u Little_endian None None None one_route_file (Some empty_view)
     = (Inr 1, [], Some one_route_decoded)"
  by (simp add: one_route_file_def one_route_decoded_def reader_eval bytes_eval view_eval)

lemma set_time_no_new_inactive: "no_new_inactive v (bgpview_set_time v t)"
  by (simp add: no_new_inactive_same bgpview_set_time_def)

lemma file_read_nni:
  assumes "bgpview_io_file_read u h peer_cb pfx_cb pfx_peer_cb s (Some v) = (Inr 1, s', view')"
  shows "\<exists>v'. view' = Some v' \<and> no_new_inactive v v'"
proof -
  from assms obtain u32 s2 pm s3 view2 am s4 view3 r0 s5 where
    peers: "read_peers h peer_cb u s2 (Some (bgpview_set_time v (ntohl h u32)))
              = (Inr pm, s3, view2)"
    and paths: "read_paths h u s3 view2 = (Inr am, s4, view3)"
    and pfxs: "read_pfxs h pfx_cb pfx_peer_cb u pm am s4 view3 = (Inr r0, s5, view')"
    unfolding bgpview_io_file_read_def Let_def
    by (auto split: if_splits prod.splits bool.splits option.splits sum.splits)
  have "rel_option no_new_inactive (Some v) (Some (bgpview_set_time v (ntohl h u32)))"
    by (simp add: set_time_no_new_inactive)
  then have "rel_option no_new_inactive (Some v) view'"
    using read_peers_nni [OF peers] read_paths_nni [OF paths] read_pfxs_nni [OF pfxs]
    by (blast intro: rel_option_nni_trans)
  then show ?thesis by (cases view') simp_all
qed

text \<open>
  C10. After a call of \<open>bgpview_io_file_read\<close> that returns 1, every peer of the view that
  was not a peer of it before the call is active, and so is every pfx-peer that the view
  did not have before; more generally nothing is inactive in the view unless it was
  there, and inactive, before the call.
\<close>

theorem file_read_activates_inserted:
  assumes "bgpview_io_file_read u h peer_cb pfx_cb pfx_peer_cb s (Some v) = (Inr 1, s', view')"
  shows "\<exists>v'. view' = Some v'
           \<and> (\<forall>i a. (i, a) \<in> set (peers v') \<and> i \<notin> fst ` set (peers v) \<longrightarrow> a)
           \<and> (\<forall>p pps i info. (p, pps) \<in> set (pfxs v') \<and> (i, info) \<in> set pps
                  \<and> \<not> has_pfx_peer v p i \<longrightarrow> pp_active info)
           \<and> no_new_inactive v v'"
proof -
  from file_read_nni [OF assms] obtain v' where v': "view' = Some v'"
    and nni: "no_new_inactive v v'" by blast
  have "a" if "(i, a) \<in> set (peers v')" "i \<notin> fst ` set (peers v)" for i a
  proof (rule ccontr)
    assume "\<not> a"
    then have "inact_peer v' i" using that(1) by (simp add: inact_peer_iff)
    then have "inact_peer v i" using nni by (simp add: no_new_inactive_def)
    then show False using that(2) by (force simp: inact_peer_iff)
  qed
  moreover have "pp_active info"
    if "(p, pps) \<in> set (pfxs v')" "(i, info) \<in> set pps" "\<not> has_pfx_peer v p i"
    for p pps i info
  proof (rule ccontr)
    assume "\<not> pp_active info"
    then have "inact_pfx_peer v' p i" using that(1,2) by (auto simp: inact_pfx_peer_iff)
    then have "inact_pfx_peer v p i" using nni by (simp add: no_new_inactive_def)
    then show False using that(3) by (auto simp: inact_pfx_peer_iff has_pfx_peer_iff)
  qed
  ultimately show ?thesis using v' nni by blast
qed

theorem file_read_activates_inserted_witness:
  "(\<forall>u. bgpview_io_file_read u Little_endian None None None one_route_file (Some empty_view)
          = (Inr 1, [], Some one_route_decoded))
   \<and> peers one_route_decoded = [(1, True)]
   \<and> map (\<lambda>(p, pps). map (\<lambda>(i, info). (i, pp_active info)) pps) (pfxs one_route_decoded)
       = [[(1, True)]]"
  using file_read_activates_inserted [OF one_route_file_read] one_route_file_read
  by (simp add: one_route_decoded_def)

section \<open>Reading what the writer wrote\<close>

lemma be_bytes_8:
  "be_bytes 8 w = [ucast (drop_bit 56 w), ucast (drop_bit 48 w), ucast (drop_bit 40 w),
                   ucast (drop_bit 32 w), ucast (drop_bit 24 w), ucast (drop_bit 16 w),
                   ucast (drop_bit 8 w), ucast w]"
proof -
  have "be_bytes (Suc (Suc (Suc (Suc (Suc (Suc (Suc (Suc 0)))))))) w
          = [ucast (drop_bit 56 w), ucast (drop_bit 48 w), ucast (drop_bit 40 w),
             ucast (drop_bit 32 w), ucast (drop_bit 24 w), ucast (drop_bit 16 w),
             ucast (drop_bit 8 w), ucast w]"
    by (simp add: drop_bit_drop_bit)
  moreover have "(8::nat) = Suc (Suc (Suc (Suc (Suc (Suc (Suc (Suc 0)))))))" by simp
  ultimately show ?thesis by (simp only:)
qed

lemma ucast_drop_ucast:
  "n + 8 \<le> 32 \<Longrightarrow> (ucast (drop_bit n (ucast (w :: 64 word) :: 32 word)) :: byte) = ucast (drop_bit n w)"
  by (rule bit_word_eqI) (auto simp: bit_simps)

lemma ucast_drop_ucast_hi:
  "n + 8 \<le> 32 \<Longrightarrow> (ucast (drop_bit n (ucast (drop_bit 32 (w :: 64 word)) :: 32 word)) :: byte)
     = ucast (drop_bit (32 + n) w)"
  by (rule bit_word_eqI) (auto simp: bit_simps ac_simps)

lemma be_bytes_8_split:
  "be_bytes 8 (w :: 64 word)
     = be_bytes 4 (ucast (drop_bit 32 w) :: 32 word) @ be_bytes 4 (ucast w :: 32 word)"
proof -
  have lo: "(ucast (ucast w :: 32 word) :: byte) = ucast w"
    using ucast_drop_ucast [of 0 w] by simp
  have hi: "(ucast (ucast (drop_bit 32 w) :: 32 word) :: byte) = ucast (drop_bit 32 w)"
    using ucast_drop_ucast_hi [of 0 w] by simp
  show ?thesis
    by (simp add: be_bytes_8 be_bytes_4 ucast_drop_ucast ucast_drop_ucast_hi lo hi)
qed

lemma ucast_and_mask32: "(ucast ((w :: 64 word) AND 0xffffffff) :: 32 word) = ucast w"
proof -
  have "(0xffffffff :: 64 word) = mask 32" by (simp add: mask_eq_exp_minus_1)
  then have "w AND 0xffffffff = take_bit 32 w" by (simp only: take_bit_eq_mask)
  moreover have "(ucast (take_bit 32 w) :: 32 word) = ucast w"
    by (rule bit_word_eqI) (auto simp: bit_simps)
  ultimately show ?thesis by simp
qed

lemma be_bytes_inj:
  "LENGTH('a::len) \<le> 8 * n \<Longrightarrow> be_bytes n (x :: 'a word) = be_bytes n y \<Longrightarrow> x = y"
  by (metis from_be_be_bytes)

lemma check_magic_iff:
  "check_magic magic s =
     (if 8 \<le> length s \<and> take 8 s = wire_magic magic then (True, drop 8 s) else (False, s))"
proof (cases "8 \<le> length s")
  case False
  then show ?thesis by (simp add: check_magic_def)
next
  case True
  define buf where "buf = (from_be (take 8 s) :: 64 word)"
  have bs: "take 8 s = be_bytes 8 buf"
    using True by (simp add: buf_def be_bytes_from_be)
  have split: "take 8 s = be_bytes 4 (ucast (drop_bit 32 buf) :: 32 word) @ be_bytes 4 (ucast buf :: 32 word)"
    by (simp only: bs be_bytes_8_split)
  have "(take 8 s = wire_magic magic)
          = ((ucast (drop_bit 32 buf) :: 32 word) = VIEW_MAGIC \<and> (ucast buf :: 32 word) = magic)"
    unfolding split wire_magic_def by (auto dest: be_bytes_inj [rotated])
  then show ?thesis
    using True by (auto simp: check_magic_def Let_def buf_def [symmetric] ucast_and_mask32)
qed

lemma check_magic_wire: "check_magic magic (wire_magic magic @ rest) = (True, rest)"
  by (simp add: check_magic_iff wire_magic_def)

lemma for_loop_prefix:
  assumes "\<And>r a a' rst l. r \<in> set rs \<Longrightarrow> step r a = Some a' \<Longrightarrow>
             \<exists>l'. body (mk l (enc r @ rst) a) = Continue (mk l' rst a')"
    and "fold_opt step rs a = Some a'"
    and "i + length rs \<le> bound"
  shows "\<exists>l'. for_loop bound i body (mk l (concat (map enc rs) @ tl0) a)
               = for_loop bound (i + length rs) body (mk l' tl0 a')"
  using assms
proof (induction rs arbitrary: i a l)
  case Nil
  then show ?case by auto
next
  case (Cons r rs)
  from Cons.prems(2) obtain a1 where a1: "step r a = Some a1"
    and rest: "fold_opt step rs a1 = Some a'"
    by (auto split: option.splits)
  from Cons.prems(1) [of r a a1 l "concat (map enc rs) @ tl0"] a1 obtain l1 where
    c: "body (mk l (enc r @ concat (map enc rs) @ tl0) a)
          = Continue (mk l1 (concat (map enc rs) @ tl0) a1)"
    by auto
  have "\<exists>l'. for_loop bound (Suc i) body (mk l1 (concat (map enc rs) @ tl0) a1)
               = for_loop bound (Suc i + length rs) body (mk l' tl0 a')"
    using Cons.prems(1,3) rest by (intro Cons.IH) auto
  then obtain l' where
    ih: "for_loop bound (Suc i) body (mk l1 (concat (map enc rs) @ tl0) a1)
           = for_loop bound (Suc i + length rs) body (mk l' tl0 a')"
    by blast
  have "for_loop bound i body (mk l (concat (map enc (r # rs)) @ tl0) a)
          = for_loop bound (Suc i) body (mk l1 (concat (map enc rs) @ tl0) a1)"
    using Cons.prems(3) c by (subst for_loop.simps) simp
  then show ?case using ih by auto
qed

lemma for_loop_parse:
  assumes "\<And>r a a' tl l. r \<in> set rs \<Longrightarrow> step r a = Some a' \<Longrightarrow>
             \<exists>l'. body (mk l (enc r @ tl) a) = Continue (mk l' tl a')"
    and "\<And>a l. body (mk l (endm @ tail) a) = Break (mk l tail a)"
    and "fold_opt step rs a = Some a'"
    and "i + length rs < bound"
  shows "\<exists>l'. for_loop bound i body (mk l (concat (map enc rs) @ endm @ tail) a)
               = (None, mk l' tail a')"
proof -
  have "\<exists>l'. for_loop bound i body (mk l (concat (map enc rs) @ endm @ tail) a)
               = for_loop bound (i + length rs) body (mk l' (endm @ tail) a')"
    using assms(1,3,4) by (intro for_loop_prefix [where step = step]) auto
  then obtain l' where
    p: "for_loop bound i body (mk l (concat (map enc rs) @ endm @ tail) a)
          = for_loop bound (i + length rs) body (mk l' (endm @ tail) a')"
    by blast
  have "for_loop bound (i + length rs) body (mk l' (endm @ tail) a') = (None, mk l' tail a')"
    using assms(2,4) by (subst for_loop.simps) simp
  with p show ?thesis by auto
qed

lemma READ_VAL16_be:
  "READ_VAL16 h old (be_bytes 2 w @ rest) = (mem_val h (be_bytes 2 w), rest)"
  by (simp add: READ_VAL16_full)

lemma READ_VAL32_be:
  "READ_VAL32 h old (be_bytes 4 w @ rest) = (mem_val h (be_bytes 4 w), rest)"
  by (simp add: READ_VAL32_full)

lemma READ_VAL16_mem:
  "READ_VAL16 h old (mem_bytes h 2 (w :: 16 word) @ rest) = (w, rest)"
  by (simp add: READ_VAL16_full mem_val_mem_bytes)

lemma READ_VAL32_mem:
  "READ_VAL32 h old (mem_bytes h 4 (w :: 32 word) @ rest) = (w, rest)"
  by (simp add: READ_VAL32_full mem_val_mem_bytes)

lemma read_ip_wire:
  "ip \<noteq> Addr_unknown \<Longrightarrow> read_ip l0 (wire_ip ip @ rest) = (Inr ip, rest)"
  by (cases ip)
     (simp_all add: read_ip_def wire_ip_def READ_VAL8_Cons wandio_read_def from_be_be_bytes)

lemma length_wire_ip: "ip \<noteq> Addr_unknown \<Longrightarrow> 5 \<le> length (wire_ip ip)"
  by (cases ip) (simp_all add: wire_ip_def)

lemma takeWhile_no_nul: "0 \<notin> set s \<Longrightarrow> takeWhile (\<lambda>c. c \<noteq> 0) s = (s :: byte list)"
  by (induction s) auto

lemma read_peer_record_wire:
  assumes "length (collector_str ps) \<le> 255" "0 \<notin> set (collector_str ps)"
    and "peer_ip_addr ps \<noteq> Addr_unknown"
  shows "read_peer_record h l0 vars (wire_peer i ps @ rest)
           = (Inr ps,
              vars\<lparr>pv_peerid_orig := i, pv_len := word_of_nat (length (collector_str ps)),
                   pv_asnumber := peer_asnumber ps\<rparr>,
              rest)"
proof -
  have len: "unat (word_of_nat (length (collector_str ps)) :: byte) = length (collector_str ps)"
    using assms(1) by (simp add: unat_of_nat)
  show ?thesis
    using assms
    by (simp add: read_peer_record_def wire_peer_def READ_VAL16_be READ_VAL32_be READ_VAL8_Cons
          ntohs_mem_val ntohl_mem_val wandio_read_def len read_ip_wire takeWhile_no_nul Let_def)
qed

lemma wire_magic_bytes:
  "wire_magic VIEW_PEER_END_MAGIC = [0x42, 0x47, 0x50, 0x56, 0x50, 0x45, 0x4E, 0x44]"
  "wire_magic VIEW_PATH_END_MAGIC = [0x42, 0x47, 0x50, 0x56, 0x50, 0x41, 0x54, 0x48]"
  "wire_magic VIEW_PFX_END_MAGIC = [0x42, 0x47, 0x50, 0x56, 0x58, 0x45, 0x4E, 0x44]"
  "wire_magic VIEW_START_MAGIC = [0x42, 0x47, 0x50, 0x56, 0x53, 0x54, 0x52, 0x54]"
  "wire_magic VIEW_END_MAGIC = [0x42, 0x47, 0x50, 0x56, 0x56, 0x45, 0x4E, 0x44]"
  by (simp_all add: bytes_eval)

lemma length_wire_magic [simp]: "length (wire_magic m) = 8"
  by (simp add: wire_magic_def)

lemma check_magic_differs:
  assumes "k < 8" "k < length s \<Longrightarrow> s ! k \<noteq> wire_magic m ! k"
  shows "check_magic m s = (False, s)"
proof -
  have "take 8 s \<noteq> wire_magic m" if "8 \<le> length s"
  proof
    assume "take 8 s = wire_magic m"
    then have "take 8 s ! k = wire_magic m ! k" by simp
    then show False using assms that by simp
  qed
  then show ?thesis by (simp add: check_magic_iff)
qed

lemma length_wire_peer:
  "peer_ip_addr ps \<noteq> Addr_unknown \<Longrightarrow> 8 \<le> length (wire_peer i ps)"
  using length_wire_ip [of "peer_ip_addr ps"] by (simp add: wire_peer_def)

lemma read_peers_body_record:
  assumes ok: "peer_wire_ok r" and step: "peers_step r a = Some a'"
  shows "\<exists>l'. read_peers_body h None l0 (mk_peers l (enc_peer r @ rst) a)
               = Continue (mk_peers l' rst a')"
proof -
  obtain i ps where r: "r = (i, ps)" by (cases r)
  obtain v m n where a: "a = (v, m, n)" by (cases a)
  from ok r have c: "length (collector_str ps) \<le> 255" "0 \<notin> set (collector_str ps)"
    "peer_ip_addr ps \<noteq> Addr_unknown" "take 8 (wire_peer i ps) \<noteq> wire_magic VIEW_PEER_END_MAGIC"
    by (simp_all add: peer_wire_ok_def)
  have t: "take 8 (wire_peer i ps @ rst) = take 8 (wire_peer i ps)"
    using length_wire_peer [OF c(3), of i] by simp
  have "\<not> (8 \<le> length (wire_peer i ps @ rst)
            \<and> take 8 (wire_peer i ps @ rst) = wire_magic VIEW_PEER_END_MAGIC)"
    unfolding t using c(4) by blast
  then have cm: "check_magic VIEW_PEER_END_MAGIC (wire_peer i ps @ rst) = (False, wire_peer i ps @ rst)"
    by (simp only: check_magic_iff if_False)
  obtain new v1 where add: "bgpview_iter_add_peer v ps = (new, v1)" by (cases "bgpview_iter_add_peer v ps")
  have "read_peers_body h None l0 (mk_peers l (enc_peer r @ rst) a)
          = Continue (mk_peers (l\<lparr>pv_peerid_orig := i,
                                    pv_len := word_of_nat (length (collector_str ps)),
                                    pv_asnumber := peer_asnumber ps\<rparr>) rst a')"
    using step add
    by (auto simp: read_peers_body_def mk_peers_def enc_peer_def r a cm
          read_peer_record_wire [OF c(1,2,3)] ask_filter_def peers_step_def Let_def
          split: if_splits)
  then show ?thesis by blast
qed

lemma read_peers_body_end:
  "read_peers_body h cb l0 (mk_peers l (wire_magic VIEW_PEER_END_MAGIC @ rst) a)
     = Break (mk_peers l rst a)"
  by (cases a) (simp add: read_peers_body_def mk_peers_def check_magic_wire)

lemma peers_step_count: "peers_step r (v, m, n) = Some (v1, m1, n1) \<Longrightarrow> n1 = n + 1"
  by (auto simp: peers_step_def split: prod.splits if_splits)

lemma fold_opt_peers_step_count:
  "fold_opt peers_step rs (v, m, n) = Some (v', m', n') \<Longrightarrow> n' = n + length rs"
proof (induction rs arbitrary: v m n)
  case Nil
  then show ?case by simp
next
  case (Cons r rs)
  from Cons.prems obtain a1 where s1: "peers_step r (v, m, n) = Some a1"
    and rest: "fold_opt peers_step rs a1 = Some (v', m', n')"
    by (auto split: option.splits)
  obtain v1 m1 n1 where a1: "a1 = (v1, m1, n1)" by (cases a1)
  have "n1 = n + 1" using s1 a1 peers_step_count by blast
  with Cons.IH [of v1 m1 n1] rest a1 show ?case by simp
qed

lemma unat_ntohs_count:
  "n < 65536 \<Longrightarrow> unat (ntohs h (mem_val h (be_bytes 2 (word_of_nat n :: 16 word)))) = n"
  by (simp add: ntohs_mem_val unat_of_nat)

lemma unat_ntohl_count:
  "n < 4294967296 \<Longrightarrow> unat (ntohl h (mem_val h (be_bytes 4 (word_of_nat n :: 32 word)))) = n"
  by (simp add: ntohl_mem_val unat_of_nat)

lemma read_peers_wire:
  assumes ok: "\<forall>r \<in> set recs. peer_wire_ok r"
    and fold: "fold_opt peers_step recs (v, [], 0) = Some (v', m', n')"
    and len: "length recs < 65535"
  shows "read_peers h None u
           (concat (map enc_peer recs) @ wire_magic VIEW_PEER_END_MAGIC
              @ be_bytes 2 (word_of_nat (length recs) :: 16 word) @ rest)
           (Some v)
         = (Inr m', rest, Some v')"
proof -
  let ?tail = "be_bytes 2 (word_of_nat (length recs) :: 16 word) @ rest"
  have n': "n' = length recs" using fold_opt_peers_step_count [OF fold] by simp
  have "\<exists>l'. for_loop UINT16_MAX 0 (read_peers_body h None (u_ip_len u))
                (mk_peers (u_peers u)
                   (concat (map enc_peer recs) @ wire_magic VIEW_PEER_END_MAGIC @ ?tail)
                   (v, [], 0))
              = (None, mk_peers l' ?tail (v', m', n'))"
    by (rule for_loop_parse [where step = peers_step])
       (use ok fold len in \<open>auto simp: UINT16_MAX_def intro: read_peers_body_record read_peers_body_end\<close>)
  then obtain l' where
    loop: "for_loop UINT16_MAX 0 (read_peers_body h None (u_ip_len u))
                (mk_peers (u_peers u)
                   (concat (map enc_peer recs) @ wire_magic VIEW_PEER_END_MAGIC @ ?tail)
                   (v, [], 0))
              = (None, mk_peers l' ?tail (v', m', n'))"
    by blast
  show ?thesis
    using loop len
    by (simp add: read_peers_def mk_peers_def READ_VAL16_be unat_ntohs_count n')
qed

lemma read_path_record_wire:
  assumes "length (sp_data sp) \<le> BUFFER_LEN"
  shows "read_path_record h vars (wire_path h sp @ rest)
           = (Inr (sp_data sp),
              vars\<lparr>av_pathidx := sp_idx sp, av_is_core := sp_is_core sp,
                   av_pathlen := word_of_nat (length (sp_data sp))\<rparr>,
              rest)"
proof -
  have len: "unat (word_of_nat (length (sp_data sp)) :: 16 word) = length (sp_data sp)"
    using assms by (simp add: unat_of_nat BUFFER_LEN_def)
  show ?thesis
    using assms
    by (simp add: read_path_record_def wire_path_def READ_VAL32_mem READ_VAL16_mem
          READ_VAL8_Cons wandio_read_def len Let_def)
qed

lemma read_paths_body_record:
  assumes ok: "path_wire_ok sp" and step: "paths_step sp a = Some a'"
  shows "\<exists>l'. read_paths_body h (mk_paths l (wire_path h sp @ rst) a)
               = Continue (mk_paths l' rst a')"
proof -
  obtain v am n where a: "a = (v, am, n)" by (cases a)
  from ok have c: "length (sp_data sp) \<le> BUFFER_LEN" "sp_is_core sp = 0 \<or> sp_is_core sp = 1"
    by (simp_all add: path_wire_ok_def)
  have "(wire_path h sp @ rst) ! 4 = sp_is_core sp"
    by (simp add: wire_path_def nth_append)
  then have "(wire_path h sp @ rst) ! 4 \<noteq> wire_magic VIEW_PATH_END_MAGIC ! 4"
    using c(2) by (auto simp: wire_magic_bytes)
  then have cm: "check_magic VIEW_PATH_END_MAGIC (wire_path h sp @ rst)
                   = (False, wire_path h sp @ rst)"
    by (intro check_magic_differs [where k = 4]) simp_all
  have "read_paths_body h (mk_paths l (wire_path h sp @ rst) a)
          = Continue (mk_paths (l\<lparr>av_pathidx := sp_idx sp, av_is_core := sp_is_core sp,
                                    av_pathlen := word_of_nat (length (sp_data sp))\<rparr>) rst a')"
    using step
    by (auto simp: read_paths_body_def mk_paths_def a cm read_path_record_wire [OF c(1)]
          paths_step_def Let_def split: option.splits prod.splits)
  then show ?thesis by blast
qed

lemma read_paths_body_end:
  "read_paths_body h (mk_paths l (wire_magic VIEW_PATH_END_MAGIC @ rst) a)
     = Break (mk_paths l rst a)"
  by (cases a) (simp add: read_paths_body_def mk_paths_def check_magic_wire)

lemma paths_step_count: "paths_step r (v, m, n) = Some (v1, m1, n1) \<Longrightarrow> n1 = n + 1"
  by (auto simp: paths_step_def split: prod.splits option.splits)

lemma fold_opt_paths_step_count:
  "fold_opt paths_step rs (v, m, n) = Some (v', m', n') \<Longrightarrow> n' = n + length rs"
proof (induction rs arbitrary: v m n)
  case Nil
  then show ?case by simp
next
  case (Cons r rs)
  from Cons.prems obtain a1 where s1: "paths_step r (v, m, n) = Some a1"
    and rest: "fold_opt paths_step rs a1 = Some (v', m', n')"
    by (auto split: option.splits)
  obtain v1 m1 n1 where a1: "a1 = (v1, m1, n1)" by (cases a1)
  have "n1 = n + 1" using s1 a1 paths_step_count by blast
  with Cons.IH [of v1 m1 n1] rest a1 show ?case by simp
qed

lemma read_paths_wire:
  assumes ok: "\<forall>r \<in> set sps. path_wire_ok r"
    and fold: "fold_opt paths_step sps (v, [], 0) = Some (v', m', n')"
    and len: "length sps < 4294967295"
  shows "read_paths h u
           (concat (map (wire_path h) sps) @ wire_magic VIEW_PATH_END_MAGIC
              @ be_bytes 4 (word_of_nat (length sps) :: 32 word) @ rest)
           (Some v)
         = (Inr m', rest, Some v')"
proof -
  let ?tail = "be_bytes 4 (word_of_nat (length sps) :: 32 word) @ rest"
  have n': "n' = length sps" using fold_opt_paths_step_count [OF fold] by simp
  have "\<exists>l'. for_loop UINT32_MAX 0 (read_paths_body h)
                (mk_paths (u_paths u)
                   (concat (map (wire_path h) sps) @ wire_magic VIEW_PATH_END_MAGIC @ ?tail)
                   (v, [], 0))
              = (None, mk_paths l' ?tail (v', m', n'))"
    by (rule for_loop_parse [where step = paths_step])
       (use ok fold len in \<open>auto simp: UINT32_MAX_def intro: read_paths_body_record read_paths_body_end\<close>)
  then obtain l' where
    loop: "for_loop UINT32_MAX 0 (read_paths_body h)
                (mk_paths (u_paths u)
                   (concat (map (wire_path h) sps) @ wire_magic VIEW_PATH_END_MAGIC @ ?tail)
                   (v, [], 0))
              = (None, mk_paths l' ?tail (v', m', n'))"
    by blast
  show ?thesis
    using loop len
    by (simp add: read_paths_def mk_paths_def READ_VAL32_be unat_ntohl_count n')
qed

lemma mem_bytes_idx_not_magic:
  assumes "unat (idx :: 32 word) < 2 ^ 30"
  shows "mem_bytes h 4 idx \<noteq> [0x50, 0x56, 0x50, 0x45]"
proof
  assume a: "mem_bytes h 4 idx = [0x50, 0x56, 0x50, 0x45]"
  have "idx = mem_val h (mem_bytes h 4 idx)" by (simp add: mem_val_mem_bytes)
  then have "idx = mem_val h [0x50, 0x56, 0x50, 0x45]" using a by simp
  then have "idx = 0x45505650 \<or> idx = 0x50565045"
    by (cases h) (simp_all add: mem_val_def from_be_def)
  then show False using assms by auto
qed

lemma read_pfx_peers_body_record:
  assumes ok: "unat (snd r) < 2 ^ 30" and step: "pfx_peers_step pm am p r a = Some a'"
  shows "\<exists>l'. read_pfx_peers_body h None pm am p False
                 (mk_pfx_peers l (enc_pfx_peer h r @ rst) a)
               = Continue (mk_pfx_peers l' rst a')"
proof -
  obtain i idx where r: "r = (i, idx)" by (cases r)
  obtain v added rx where a: "a = (v, added, rx)" by (cases a)
  let ?s = "be_bytes 2 i @ mem_bytes h 4 idx @ rst"
  have "\<not> (8 \<le> length ?s \<and> take 8 ?s = wire_magic VIEW_PEER_END_MAGIC)"
  proof
    assume "8 \<le> length ?s \<and> take 8 ?s = wire_magic VIEW_PEER_END_MAGIC"
    then have "take 4 (drop 2 (take 8 ?s)) = take 4 (drop 2 (wire_magic VIEW_PEER_END_MAGIC))"
      by simp
    moreover have "take 4 (drop 2 (take 8 ?s)) = mem_bytes h 4 idx"
      by (simp add: drop_take)
    ultimately have "mem_bytes h 4 idx = [0x50, 0x56, 0x50, 0x45]"
      by (simp add: wire_magic_bytes)
    then show False using mem_bytes_idx_not_magic ok r by auto
  qed
  then have cm: "check_magic VIEW_PEER_END_MAGIC ?s = (False, ?s)"
    by (simp only: check_magic_iff if_False)
  have "read_pfx_peers_body h None pm am p False (mk_pfx_peers l (enc_pfx_peer h r @ rst) a)
          = Continue (mk_pfx_peers (l\<lparr>xv_peerid := i, xv_pathidx := idx\<rparr>) rst a')"
    using step
    by (auto simp: read_pfx_peers_body_def mk_pfx_peers_def enc_pfx_peer_def wire_pfx_peer_def
          r a cm READ_VAL16_be READ_VAL32_mem ntohs_mem_val pfx_peers_step_def ask_filter_def
          Let_def split: option.splits prod.splits if_splits)
  then show ?thesis by blast
qed

lemma read_pfx_peers_body_end:
  "read_pfx_peers_body h cb pm am p skip
       (mk_pfx_peers l (wire_magic VIEW_PEER_END_MAGIC @ rst) a)
     = Break (mk_pfx_peers l rst a)"
  by (cases a) (simp add: read_pfx_peers_body_def mk_pfx_peers_def check_magic_wire)

lemma pfx_peers_step_count:
  "pfx_peers_step pm am p r (v, added, rx) = Some (v1, added1, rx1) \<Longrightarrow> rx1 = rx + 1"
  by (auto simp: pfx_peers_step_def split: prod.splits option.splits if_splits)

lemma fold_opt_pfx_peers_step_count:
  "fold_opt (pfx_peers_step pm am p) rs (v, added, rx) = Some (v', added', rx') \<Longrightarrow>
   rx' = rx + length rs"
proof (induction rs arbitrary: v added rx)
  case Nil
  then show ?case by simp
next
  case (Cons r rs)
  from Cons.prems obtain a1 where s1: "pfx_peers_step pm am p r (v, added, rx) = Some a1"
    and rest: "fold_opt (pfx_peers_step pm am p) rs a1 = Some (v', added', rx')"
    by (auto split: option.splits)
  obtain v1 d1 n1 where a1: "a1 = (v1, d1, n1)" by (cases a1)
  have "n1 = rx + 1" using s1 a1 pfx_peers_step_count by blast
  with Cons.IH [of v1 d1 n1] rest a1 show ?case by simp
qed

lemma pfx_surjective: "\<lparr>address = address p, mask_len = mask_len p\<rparr> = (p :: pfx)"
  by simp

lemma hd_wire_ip: "ip \<noteq> Addr_unknown \<Longrightarrow> (wire_ip ip @ rst) ! 0 = 4 \<or> (wire_ip ip @ rst) ! 0 = 16"
  by (cases ip) (simp_all add: wire_ip_def)

lemma read_pfxs_body_record:
  assumes ok: "pfx_wire_ok r" and step: "pfxs_step pm am r a = Some a'"
  shows "\<exists>l'. read_pfxs_body h None None l0 pm am (mk_pfxs l (enc_pfx h r @ rst) a)
               = Continue (mk_pfxs l' rst a')"
proof -
  obtain p pprs where r: "r = (p, pprs)" by (cases r)
  obtain v n where a: "a = (v, n)" by (cases a)
  from ok r have c: "address p \<noteq> Addr_unknown" "length pprs < 65535"
    "\<forall>x \<in> set pprs. unat (snd x) < 2 ^ 30"
    by (auto simp: pfx_wire_ok_def list_all_iff)
  from step r a obtain v' added rx where
    fold: "fold_opt (pfx_peers_step pm am p) pprs (v, 0, 0) = Some (v', added, rx)"
    and a': "a' = (v', n + 1)"
    by (auto simp: pfxs_step_def split: option.splits)
  have rx: "rx = length pprs" using fold_opt_pfx_peers_step_count [OF fold] by simp
  let ?cnt = "be_bytes 2 (word_of_nat (length pprs) :: 16 word) @ rst"
  let ?inner = "concat (map (enc_pfx_peer h) pprs) @ wire_magic VIEW_PEER_END_MAGIC @ ?cnt"
  have e: "enc_pfx h r @ rst = wire_ip (address p) @ mask_len p # ?inner"
    by (simp add: enc_pfx_def r)
  have "(wire_ip (address p) @ mask_len p # ?inner) ! 0
          \<noteq> wire_magic VIEW_PFX_END_MAGIC ! 0"
    using hd_wire_ip [OF c(1), of "mask_len p # ?inner"] by (auto simp: wire_magic_bytes)
  then have cm: "check_magic VIEW_PFX_END_MAGIC (wire_ip (address p) @ mask_len p # ?inner)
                   = (False, wire_ip (address p) @ mask_len p # ?inner)"
    by (intro check_magic_differs [where k = 0]) simp_all
  define l1 where "l1 = l\<lparr>xv_mask_len := mask_len p\<rparr>"
  have "\<exists>l'. for_loop UINT16_MAX 0 (read_pfx_peers_body h None pm am p False)
                (mk_pfx_peers l1 ?inner (v, 0, 0))
              = (None, mk_pfx_peers l' ?cnt (v', added, rx))"
  proof (rule for_loop_parse [where step = "pfx_peers_step pm am p"])
    fix x b b' rst' k
    assume "x \<in> set pprs" "pfx_peers_step pm am p x b = Some b'"
    then show "\<exists>l'. read_pfx_peers_body h None pm am p False
                       (mk_pfx_peers k (enc_pfx_peer h x @ rst') b)
                     = Continue (mk_pfx_peers l' rst' b')"
      using c(3) by (intro read_pfx_peers_body_record) auto
  next
    fix b k
    show "read_pfx_peers_body h None pm am p False
            (mk_pfx_peers k (wire_magic VIEW_PEER_END_MAGIC @ ?cnt) b)
          = Break (mk_pfx_peers k ?cnt b)"
      by (rule read_pfx_peers_body_end)
  next
    show "fold_opt (pfx_peers_step pm am p) pprs (v, 0, 0) = Some (v', added, rx)" by (rule fold)
  next
    show "0 + length pprs < UINT16_MAX" using c(2) by (simp add: UINT16_MAX_def)
  qed
  then obtain l2 where
    "for_loop UINT16_MAX 0 (read_pfx_peers_body h None pm am p False)
       (mk_pfx_peers l1 ?inner (v, 0, 0))
     = (None, mk_pfx_peers l2 ?cnt (v', added, rx))"
    by blast
  then have loop': "for_loop UINT16_MAX 0 (read_pfx_peers_body h None pm am p False)
                \<lparr>pp_infile = ?inner, pp_view = Some v, pfx_peers_added = 0, pfx_peer_rx = 0,
                 pp_vars = l\<lparr>xv_mask_len := mask_len p\<rparr>\<rparr>
              = (None, \<lparr>pp_infile = ?cnt, pp_view = Some v', pfx_peers_added = added,
                         pfx_peer_rx = rx, pp_vars = l2\<rparr>)"
    by (simp add: mk_pfx_peers_def l1_def)
  have "read_pfxs_body h None None l0 pm am (mk_pfxs l (enc_pfx h r @ rst) a)
          = Continue (mk_pfxs (l2\<lparr>xv_peer_cnt := word_of_nat (length pprs)\<rparr>) rst a')"
    unfolding e
    using c(2)
    by (simp add: read_pfxs_body_def mk_pfxs_def a a' cm read_ip_wire [OF c(1)] READ_VAL8_Cons
          ask_filter_def pfx_surjective loop' READ_VAL16_be rx Let_def ntohs_mem_val
          unat_of_nat)
  then show ?thesis by blast
qed

lemma read_pfxs_body_end:
  "read_pfxs_body h pfx_cb cb l0 pm am (mk_pfxs l (wire_magic VIEW_PFX_END_MAGIC @ rst) a)
     = Break (mk_pfxs l rst a)"
  by (cases a) (simp add: read_pfxs_body_def mk_pfxs_def check_magic_wire)

lemma pfxs_step_count: "pfxs_step pm am r (v, n) = Some (v1, n1) \<Longrightarrow> n1 = n + 1"
  by (auto simp: pfxs_step_def split: prod.splits option.splits)

lemma fold_opt_pfxs_step_count:
  "fold_opt (pfxs_step pm am) rs (v, n) = Some (v', n') \<Longrightarrow> n' = n + length rs"
proof (induction rs arbitrary: v n)
  case Nil
  then show ?case by simp
next
  case (Cons r rs)
  from Cons.prems obtain a1 where s1: "pfxs_step pm am r (v, n) = Some a1"
    and rest: "fold_opt (pfxs_step pm am) rs a1 = Some (v', n')"
    by (auto split: option.splits)
  obtain v1 n1 where a1: "a1 = (v1, n1)" by (cases a1)
  have "n1 = n + 1" using s1 a1 pfxs_step_count by blast
  with Cons.IH [of v1 n1] rest a1 show ?case by simp
qed

lemma read_pfxs_wire:
  assumes ok: "\<forall>r \<in> set recs. pfx_wire_ok r"
    and fold: "fold_opt (pfxs_step pm am) recs (v, 0) = Some (v', n')"
    and len: "length recs < 4294967295"
  shows "read_pfxs h None None u pm am
           (concat (map (enc_pfx h) recs) @ wire_magic VIEW_PFX_END_MAGIC
              @ be_bytes 4 (word_of_nat (length recs) :: 32 word) @ rest)
           (Some v)
         = (Inr (), rest, Some v')"
proof -
  let ?tail = "be_bytes 4 (word_of_nat (length recs) :: 32 word) @ rest"
  have n': "n' = length recs" using fold_opt_pfxs_step_count [OF fold] by simp
  have "\<exists>l'. for_loop UINT32_MAX 0 (read_pfxs_body h None None (u_ip_len u) pm am)
                (mk_pfxs (u_pfxs u)
                   (concat (map (enc_pfx h) recs) @ wire_magic VIEW_PFX_END_MAGIC @ ?tail)
                   (v, 0))
              = (None, mk_pfxs l' ?tail (v', n'))"
    by (rule for_loop_parse [where step = "pfxs_step pm am"])
       (use ok fold len in \<open>auto simp: UINT32_MAX_def intro: read_pfxs_body_record read_pfxs_body_end\<close>)
  then obtain l' where
    loop: "for_loop UINT32_MAX 0 (read_pfxs_body h None None (u_ip_len u) pm am)
                (mk_pfxs (u_pfxs u)
                   (concat (map (enc_pfx h) recs) @ wire_magic VIEW_PFX_END_MAGIC @ ?tail)
                   (v, 0))
              = (None, mk_pfxs l' ?tail (v', n'))"
    by blast
  show ?thesis
    using loop len
    by (simp add: read_pfxs_def mk_pfxs_def READ_VAL32_be unat_ntohl_count n')
qed

lemma file_read_wire:
  assumes "\<forall>r \<in> set precs. peer_wire_ok r" "length precs < 65535"
    and "fold_opt peers_step precs (bgpview_set_time v0 t, [], 0) = Some (v1, pm, n1)"
    and "\<forall>r \<in> set sps. path_wire_ok r" "length sps < 4294967295"
    and "fold_opt paths_step sps (v1, [], 0) = Some (v2, am, n2)"
    and "\<forall>r \<in> set xrecs. pfx_wire_ok r" "length xrecs < 4294967295"
    and "fold_opt (pfxs_step pm am) xrecs (v2, 0) = Some (v3, n3)"
  shows "bgpview_io_file_read u h None None None
           (wire_magic VIEW_START_MAGIC @ be_bytes 4 t
            @ (concat (map enc_peer precs) @ wire_magic VIEW_PEER_END_MAGIC
                 @ be_bytes 2 (word_of_nat (length precs) :: 16 word))
            @ (concat (map (wire_path h) sps) @ wire_magic VIEW_PATH_END_MAGIC
                 @ be_bytes 4 (word_of_nat (length sps) :: 32 word))
            @ (concat (map (enc_pfx h) xrecs) @ wire_magic VIEW_PFX_END_MAGIC
                 @ be_bytes 4 (word_of_nat (length xrecs) :: 32 word))
            @ wire_magic VIEW_END_MAGIC)
           (Some v0)
         = (Inr 1, [], Some v3)"
proof -
  define P where "P = concat (map enc_peer precs) @ wire_magic VIEW_PEER_END_MAGIC
                 @ be_bytes 2 (word_of_nat (length precs) :: 16 word)"
  define A where "A = concat (map (wire_path h) sps) @ wire_magic VIEW_PATH_END_MAGIC
                 @ be_bytes 4 (word_of_nat (length sps) :: 32 word)"
  define X where "X = concat (map (enc_pfx h) xrecs) @ wire_magic VIEW_PFX_END_MAGIC
                 @ be_bytes 4 (word_of_nat (length xrecs) :: 32 word)"
  have rp: "read_peers h None u (P @ rest) (Some (bgpview_set_time v0 t))
              = (Inr pm, rest, Some v1)" for rest
    using read_peers_wire [OF assms(1,3,2), of h u rest] by (simp add: P_def)
  have ra: "read_paths h u (A @ rest) (Some v1) = (Inr am, rest, Some v2)" for rest
    using read_paths_wire [OF assms(4,6,5), of h u rest] by (simp add: A_def)
  have rx: "read_pfxs h None None u pm am (X @ rest) (Some v2) = (Inr (), rest, Some v3)"
    for rest
    using read_pfxs_wire [OF assms(7,9,8), of h u rest] by (simp add: X_def)
  have ne: "wire_magic m \<noteq> []" for m
    using length_wire_magic [of m] by (metis length_0_conv zero_neq_numeral)
  have "bgpview_io_file_read u h None None None
          (wire_magic VIEW_START_MAGIC @ be_bytes 4 t @ P @ A @ X @ wire_magic VIEW_END_MAGIC)
          (Some v0)
        = (Inr 1, [], Some v3)"
    using check_magic_wire [of VIEW_END_MAGIC "[]"]
    by (simp add: bgpview_io_file_read_def ne check_magic_wire READ_VAL32_be ntohl_mem_val
          rp ra rx Let_def)
  then show ?thesis by (simp only: P_def A_def X_def)
qed

section \<open>What the reader builds from the records\<close>

lemma fold_opt_snoc:
  "fold_opt f (xs @ [x]) a = (case fold_opt f xs a of None \<Rightarrow> None | Some a' \<Rightarrow> f x a')"
  by (induction xs arbitrary: a) (auto split: option.splits)

lemma find_pos_None: "(find_pos P xs = None) = (\<forall>x \<in> set xs. \<not> P x)"
  by (induction xs) (auto split: option.splits)


lemma unat_word16_of_nat: "n < 65536 \<Longrightarrow> unat (word_of_nat n :: 16 word) = n"
  by (simp add: unat_of_nat)

lemma unat_word32_of_nat: "n < 4294967296 \<Longrightarrow> unat (word_of_nat n :: 32 word) = n"
  by (simp add: unat_of_nat)

lemma seq_peers_Suc: "seq_peers (Suc n) = seq_peers n @ [(word_of_nat (n + 1), True)]"
  by (simp add: seq_peers_def)

lemma seq_peers_keys:
  "n < 65535 \<Longrightarrow> (word_of_nat (n + 1) :: 16 word) \<notin> fst ` set (seq_peers n)"
proof
  assume n: "n < 65535" and "(word_of_nat (n + 1) :: 16 word) \<in> fst ` set (seq_peers n)"
  then obtain j where j: "j < n" "(word_of_nat (j + 1) :: 16 word) = word_of_nat (n + 1)"
    by (auto simp: seq_peers_def)
  then have "unat (word_of_nat (j + 1) :: 16 word) = unat (word_of_nat (n + 1) :: 16 word)"
    by simp
  moreover have "unat (word_of_nat (j + 1) :: 16 word) = j + 1"
    using j(1) n by (intro unat_word16_of_nat) simp
  moreover have "unat (word_of_nat (n + 1) :: 16 word) = n + 1"
    using n by (intro unat_word16_of_nat) simp
  ultimately show False using j(1) by linarith
qed

lemma activate_all_true:
  "\<forall>x \<in> set l. snd x \<Longrightarrow> map (\<lambda>(p, a). if p = i then (p, True) else (p, a)) l = l"
  by (induction l) auto

lemma seq_peers_all_true: "\<forall>x \<in> set (seq_peers n). snd x"
  by (auto simp: seq_peers_def)

lemma add_peer_fresh:
  assumes "sig_store v = S" "peers v = seq_peers (length S)" "ps \<notin> set S"
    and "length S < 65534" "length (collector_str ps) \<le> 255"
  shows "bgpview_iter_add_peer v ps
           = (word_of_nat (length S + 1),
              v\<lparr>sig_store := S @ [ps],
                peers := seq_peers (length S) @ [(word_of_nat (length S + 1), False)]\<rparr>)"
proof -
  have f: "find_pos (\<lambda>x. x = ps) S = None" using assms(3) by (auto simp: find_pos_None)
  have k: "(word_of_nat (length S + 1) :: 16 word) \<notin> fst ` set (seq_peers (length S))"
    using assms(4) by (intro seq_peers_keys) simp
  show ?thesis
    using assms(1,2,4,5) f k
    by (simp add: bgpview_iter_add_peer_def sig_intern_def)
qed

lemma peers_step_fresh:
  assumes "sig_store v = S" "peers v = seq_peers (length S)" "ps \<notin> set S"
    and "length S < 65534" "length (collector_str ps) \<le> 255"
  shows "peers_step (i, ps) (v, m, n)
           = Some (v\<lparr>sig_store := S @ [ps], peers := seq_peers (Suc (length S))\<rparr>,
                   (if unat i + 1 > length m then m @ replicate (unat i + 1 - length m) 0 else m)
                     [unat i := word_of_nat (length S + 1)],
                   n + 1)"
proof -
  have nz: "(word_of_nat (length S + 1) :: 16 word) \<noteq> 0"
  proof
    assume "(word_of_nat (length S + 1) :: 16 word) = 0"
    then have "unat (word_of_nat (length S + 1) :: 16 word) = 0" by simp
    moreover have "unat (word_of_nat (length S + 1) :: 16 word) = length S + 1"
      using assms(4) by (intro unat_word16_of_nat) simp
    ultimately show False by linarith
  qed
  have act: "map (\<lambda>(p, a). if p = word_of_nat (length S + 1) then (p, True) else (p, a))
               (seq_peers (length S)) = seq_peers (length S)"
    by (rule activate_all_true) (rule seq_peers_all_true)
  show ?thesis
    using nz act
    by (simp add: peers_step_def add_peer_fresh [OF assms] bgpview_iter_activate_peer_def
          seq_peers_Suc)
qed

lemma peers_fold:
  assumes "distinct (map snd recs)" "distinct (map fst recs)" "length recs \<le> 65534"
    and "\<forall>r \<in> set recs. length (collector_str (snd r)) \<le> 255"
    and "sig_store v0 = []" "peers v0 = []"
  shows "\<exists>m. fold_opt peers_step recs (v0, [], 0)
               = Some (v0\<lparr>sig_store := map snd recs, peers := seq_peers (length recs)\<rparr>,
                       m, length recs)
             \<and> (\<forall>j < length recs. unat (fst (recs ! j)) < length m
                    \<and> m ! unat (fst (recs ! j)) = word_of_nat (j + 1))"
  using assms(1-4)
proof (induction recs rule: rev_induct)
  case Nil
  show ?case using assms(5,6) by (simp add: seq_peers_def)
next
  case (snoc x xs)
  obtain i ps where x: "x = (i, ps)" by (cases x)
  from snoc.prems have pre: "distinct (map snd xs)" "distinct (map fst xs)" "length xs \<le> 65534"
    "\<forall>r \<in> set xs. length (collector_str (snd r)) \<le> 255"
    by simp_all
  from snoc.IH [OF pre] obtain m where
    f: "fold_opt peers_step xs (v0, [], 0)
          = Some (v0\<lparr>sig_store := map snd xs, peers := seq_peers (length xs)\<rparr>, m, length xs)"
    and mp: "\<forall>j < length xs. unat (fst (xs ! j)) < length m
               \<and> m ! unat (fst (xs ! j)) = word_of_nat (j + 1)"
    by blast
  let ?v = "v0\<lparr>sig_store := map snd xs, peers := seq_peers (length xs)\<rparr>"
  let ?g = "if unat i + 1 > length m then m @ replicate (unat i + 1 - length m) 0 else m"
  let ?m = "?g[unat i := word_of_nat (length xs + 1)]"
  have fresh: "ps \<notin> set (map snd xs)" "length (map snd xs) < 65534"
    "length (collector_str ps) \<le> 255"
    using snoc.prems x by auto
  have st: "peers_step (i, ps) (?v, m, length xs)
              = Some (?v\<lparr>sig_store := map snd xs @ [ps],
                         peers := seq_peers (Suc (length (map snd xs)))\<rparr>, ?m, length xs + 1)"
    using peers_step_fresh [of ?v "map snd xs" ps i m "length xs"] fresh by simp
  have res: "fold_opt peers_step (xs @ [x]) (v0, [], 0)
               = Some (v0\<lparr>sig_store := map snd (xs @ [x]),
                          peers := seq_peers (length (xs @ [x]))\<rparr>, ?m, length (xs @ [x]))"
    by (simp add: fold_opt_snoc f x st)
  have ilen: "unat i < length ?g" by simp
  have "unat (fst ((xs @ [x]) ! j)) < length ?m
          \<and> ?m ! unat (fst ((xs @ [x]) ! j)) = word_of_nat (j + 1)"
    if j: "j < length (xs @ [x])" for j
  proof (cases "j < length xs")
    case True
    have "fst (xs ! j) \<in> fst ` set xs" using True by simp
    moreover have "i \<notin> fst ` set xs" using snoc.prems(2) x by simp
    ultimately have ne: "fst (xs ! j) \<noteq> i" by metis
    then have une: "unat (fst (xs ! j)) \<noteq> unat i" by (simp add: word_unat_eq_iff)
    have old: "unat (fst (xs ! j)) < length m" "m ! unat (fst (xs ! j)) = word_of_nat (j + 1)"
      using mp True by simp_all
    have "?g ! unat (fst (xs ! j)) = m ! unat (fst (xs ! j))"
      using old(1) by (simp add: nth_append)
    then show ?thesis using True une old by (simp add: nth_append)
  next
    case False
    then have "j = length xs" using j by simp
    then show ?thesis using ilen by (simp add: x)
  qed
  then show ?case using res by blast
qed
lemma decoded_paths_snoc:
  "decoded_paths (xs @ [x])
     = decoded_paths xs
       @ [\<lparr>sp_idx = word_of_nat (length xs), sp_is_core = sp_is_core x, sp_data = sp_data x\<rparr>]"
  by (simp add: decoded_paths_def enumerate_append_eq)

lemma length_decoded_paths [simp]: "length (decoded_paths xs) = length xs"
  by (simp add: decoded_paths_def)

lemma decoded_paths_Nil [simp]: "decoded_paths [] = []"
  by (simp add: decoded_paths_def)

lemma decoded_paths_content:
  "map (\<lambda>sp. (sp_data sp, sp_is_core sp)) (decoded_paths xs)
     = map (\<lambda>sp. (sp_data sp, sp_is_core sp)) xs"
  by (induction xs rule: rev_induct) (simp_all add: decoded_paths_snoc)

lemma decoded_paths_nth:
  "j < length xs \<Longrightarrow>
   decoded_paths xs ! j
     = \<lparr>sp_idx = word_of_nat j, sp_is_core = sp_is_core (xs ! j), sp_data = sp_data (xs ! j)\<rparr>"
  by (simp add: decoded_paths_def nth_enumerate_eq)

lemma insert_path_fresh:
  assumes "(data, core) \<notin> set (map (\<lambda>sp. (sp_data sp, sp_is_core sp)) xs)"
  shows "path_store_insert_path (decoded_paths xs) data core
           = (\<lparr>store_index = word_of_nat (length xs), is_core = core\<rparr>,
              decoded_paths xs
              @ [\<lparr>sp_idx = word_of_nat (length xs), sp_is_core = core, sp_data = data\<rparr>])"
proof -
  have "(data, core) \<notin> set (map (\<lambda>sp. (sp_data sp, sp_is_core sp)) (decoded_paths xs))"
    unfolding decoded_paths_content by (rule assms)
  then have "find_pos (\<lambda>p. sp_data p = data \<and> sp_is_core p = core) (decoded_paths xs) = None"
    by (auto simp: find_pos_None)
  then show ?thesis by (simp add: path_store_insert_path_def)
qed

lemma grow_path_idmap_ok:
  assumes "unat idx < 2 ^ 30" "length am < 2 ^ 31"
  shows "\<exists>am'. grow_path_idmap idx am = Some am' \<and> unat idx < length am'
               \<and> length am \<le> length am'
               \<and> length am' < 2 ^ 31 \<and> (\<forall>x < length am. am' ! x = am ! x)"
proof -
  have u: "unat (idx + 1) = unat idx + 1"
    using assms(1) by (simp add: unat_word_ariths)
  show ?thesis
  proof (cases "unat idx + 1 > length am")
    case False
    then show ?thesis using assms(2) by (simp add: grow_path_idmap_def u)
  next
    case True
    show ?thesis
    proof (cases "idx = 0")
      case z: True
      then have "am = []" using True by simp
      then show ?thesis using z by (simp add: grow_path_idmap_def)
    next
      case nz: False
      then have pos: "0 < unat idx" by (simp add: unat_gt_0)
      have small: "\<not> (2 ^ 31 \<le> 2 * unat idx)" using assms(1) by simp
      have "grow_path_idmap idx am
              = Some (am @ replicate (2 * unat idx - length am) None)"
        using True nz small pos by (auto simp: grow_path_idmap_def u Let_def)
      then show ?thesis using True pos assms(1) by (auto simp: nth_append)
    qed
  qed
qed

lemma paths_fold:
  assumes "distinct (map sp_idx sps)"
    and "distinct (map (\<lambda>sp. (sp_data sp, sp_is_core sp)) sps)"
    and "\<forall>sp \<in> set sps. unat (sp_idx sp) < 2 ^ 30"
    and "path_store v = []"
  shows "\<exists>am. fold_opt paths_step sps (v, [], 0)
               = Some (v\<lparr>path_store := decoded_paths sps\<rparr>, am, length sps)
             \<and> length am < 2 ^ 31
             \<and> (\<forall>j < length sps. unat (sp_idx (sps ! j)) < length am
                    \<and> am ! unat (sp_idx (sps ! j))
                        = Some \<lparr>store_index = word_of_nat j, is_core = sp_is_core (sps ! j)\<rparr>)"
  using assms(1-3)
proof (induction sps rule: rev_induct)
  case Nil
  show ?case using assms(4) by (simp add: decoded_paths_def)
next
  case (snoc x xs)
  from snoc.prems have pre: "distinct (map sp_idx xs)"
    "distinct (map (\<lambda>sp. (sp_data sp, sp_is_core sp)) xs)"
    "\<forall>sp \<in> set xs. unat (sp_idx sp) < 2 ^ 30"
    by simp_all
  from snoc.IH [OF pre] obtain am where
    f: "fold_opt paths_step xs (v, [], 0)
          = Some (v\<lparr>path_store := decoded_paths xs\<rparr>, am, length xs)"
    and alen: "length am < 2 ^ 31"
    and mp: "\<forall>j < length xs. unat (sp_idx (xs ! j)) < length am
               \<and> am ! unat (sp_idx (xs ! j))
                   = Some \<lparr>store_index = word_of_nat j, is_core = sp_is_core (xs ! j)\<rparr>"
    by blast
  have xi: "unat (sp_idx x) < 2 ^ 30" using snoc.prems(3) by simp
  from grow_path_idmap_ok [OF xi alen] obtain am1 where
    g: "grow_path_idmap (sp_idx x) am = Some am1" and g1: "unat (sp_idx x) < length am1"
    and g4: "length am \<le> length am1"
    and g2: "length am1 < 2 ^ 31" and g3: "\<forall>y < length am. am1 ! y = am ! y"
    by blast
  have fresh: "(sp_data x, sp_is_core x) \<notin> set (map (\<lambda>sp. (sp_data sp, sp_is_core sp)) xs)"
    using snoc.prems(2) by simp
  let ?pid = "\<lparr>store_index = word_of_nat (length xs), is_core = sp_is_core x\<rparr>"
  let ?am = "am1[unat (sp_idx x) := Some ?pid]"
  have st: "paths_step x (v\<lparr>path_store := decoded_paths xs\<rparr>, am, length xs)
              = Some (v\<lparr>path_store := decoded_paths (xs @ [x])\<rparr>, ?am, length xs + 1)"
    by (simp add: paths_step_def g insert_path_fresh [OF fresh] decoded_paths_snoc)
  have res: "fold_opt paths_step (xs @ [x]) (v, [], 0)
               = Some (v\<lparr>path_store := decoded_paths (xs @ [x])\<rparr>, ?am, length (xs @ [x]))"
    by (simp add: fold_opt_snoc f st)
  have "unat (sp_idx ((xs @ [x]) ! j)) < length ?am
          \<and> ?am ! unat (sp_idx ((xs @ [x]) ! j))
              = Some \<lparr>store_index = word_of_nat j, is_core = sp_is_core ((xs @ [x]) ! j)\<rparr>"
    if j: "j < length (xs @ [x])" for j
  proof (cases "j < length xs")
    case True
    have "sp_idx (xs ! j) \<in> sp_idx ` set xs" using True by simp
    moreover have "sp_idx x \<notin> sp_idx ` set xs" using snoc.prems(1) by simp
    ultimately have "sp_idx (xs ! j) \<noteq> sp_idx x" by metis
    then have une: "unat (sp_idx (xs ! j)) \<noteq> unat (sp_idx x)" by (simp add: word_unat_eq_iff)
    have old: "unat (sp_idx (xs ! j)) < length am"
      "am ! unat (sp_idx (xs ! j))
         = Some \<lparr>store_index = word_of_nat j, is_core = sp_is_core (xs ! j)\<rparr>"
      using mp True by simp_all
    have "am1 ! unat (sp_idx (xs ! j)) = am ! unat (sp_idx (xs ! j))" using g3 old(1) by simp
    moreover have "unat (sp_idx (xs ! j)) < length am1" using old(1) g4 by simp
    ultimately show ?thesis using True une old by (simp add: nth_append)
  next
    case False
    then have "j = length xs" using j by simp
    then show ?thesis using g1 by simp
  qed
  then show ?case using res g2 by auto
qed
lemma alist_set_fresh: "k \<notin> fst ` set l \<Longrightarrow> alist_set k v l = l @ [(k, v)]"
  by (induction l) auto

lemma alist_set_last: "k \<notin> fst ` set l \<Longrightarrow> alist_set k v (l @ [(k, w)]) = l @ [(k, v)]"
  by (induction l) auto

lemma map_of_fresh: "k \<notin> fst ` set l \<Longrightarrow> map_of l k = None"
  by (simp add: map_of_eq_None_iff)

lemma map_of_fresh_snoc: "k \<notin> fst ` set l \<Longrightarrow> map_of (l @ [(k, v)]) k = Some v"
  by (induction l) auto

lemma pfx_activate_peer_eval:
  assumes "map_of (pfxs v) p = Some pps" "map_of pps k = Some info" "\<not> pp_active info"
  shows "bgpview_iter_pfx_activate_peer v p k
           = (1, bgpview_iter_activate_peer
                   (v\<lparr>pfxs := alist_set p (alist_set k (info\<lparr>pp_active := True\<rparr>) pps) (pfxs v)\<rparr>)
                   k)"
  using assms by (simp add: bgpview_iter_pfx_activate_peer_def)

lemma pfx_peers_step_fresh:
  assumes shape: "pfxs v = base @ (if es = [] then [] else [(p, es)])"
    and pb: "p \<notin> fst ` set base"
    and i: "unat i < length pm" and idx: "unat idx < length am"
    and pid: "am ! unat idx = Some pid"
    and peer: "pm ! unat i \<in> fst ` set (peers v)"
    and fresh: "pm ! unat i \<notin> fst ` set es"
    and act: "\<forall>x \<in> set (peers v). snd x"
  shows "pfx_peers_step pm am p (i, idx) (v, a, r)
           = Some (v\<lparr>pfxs := base @ [(p, es @ [(pm ! unat i,
                                                 \<lparr>pp_path_id = pid, pp_active = True\<rparr>)])]\<rparr>,
                   a + 1, r + 1)"
proof -
  define k where "k = pm ! unat i"
  define off where "off = \<lparr>pp_path_id = pid, pp_active = False\<rparr>"
  define on where "on = \<lparr>pp_path_id = pid, pp_active = True\<rparr>"
  have old: "(case map_of (pfxs v) p of None \<Rightarrow> [] | Some pps \<Rightarrow> pps) = es"
  proof (cases "es = []")
    case True
    then have "pfxs v = base" using shape by simp
    then have "map_of (pfxs v) p = None" using pb by (simp add: map_of_fresh)
    then show ?thesis using True by simp
  next
    case False
    then have "pfxs v = base @ [(p, es)]" using shape by simp
    then have "map_of (pfxs v) p = Some es" using map_of_fresh_snoc [OF pb, of es] by simp
    then show ?thesis by simp
  qed
  have new: "alist_set k off es = es @ [(k, off)]"
    using fresh by (simp add: alist_set_fresh k_def)
  have p1: "alist_set p (es @ [(k, off)]) (pfxs v) = base @ [(p, es @ [(k, off)])]"
    using shape pb by (cases "es = []") (simp_all add: alist_set_fresh alist_set_last)
  have kin: "k \<in> set (map fst (peers v))" using peer by (simp add: k_def)
  have add: "bgpview_iter_add_pfx_peer_by_id v p k pid
               = Some (v\<lparr>pfxs := base @ [(p, es @ [(k, off)])]\<rparr>)"
    unfolding bgpview_iter_add_pfx_peer_by_id_def Let_def old
    using kin by (simp add: new [unfolded off_def] p1 [unfolded off_def]) (simp add: off_def)
  define L where "L = base @ [(p, es @ [(k, off)])]"
  define w where "w = v\<lparr>pfxs := L\<rparr>"
  have m1: "map_of (pfxs w) p = Some (es @ [(k, off)])"
    unfolding w_def L_def using map_of_fresh_snoc [OF pb] by simp
  have m2: "map_of (es @ [(k, off)]) k = Some off"
    using fresh unfolding k_def by (rule map_of_fresh_snoc)
  have m3: "\<not> pp_active off" by (simp add: off_def)
  have s2: "alist_set p (alist_set k (off\<lparr>pp_active := True\<rparr>) (es @ [(k, off)])) (pfxs w)
            = base @ [(p, es @ [(k, on)])]"
    using pb fresh by (simp add: alist_set_last k_def off_def on_def w_def L_def)
  have "bgpview_iter_pfx_activate_peer w p k
          = (1, bgpview_iter_activate_peer (w\<lparr>pfxs := base @ [(p, es @ [(k, on)])]\<rparr>) k)"
    unfolding pfx_activate_peer_eval [OF m1 m2 m3] s2 by (rule refl)
  also have "bgpview_iter_activate_peer (w\<lparr>pfxs := base @ [(p, es @ [(k, on)])]\<rparr>) k
               = v\<lparr>pfxs := base @ [(p, es @ [(k, on)])]\<rparr>"
    using act by (simp add: bgpview_iter_activate_peer_def activate_all_true w_def)
  finally have actv: "bgpview_iter_pfx_activate_peer (v\<lparr>pfxs := base @ [(p, es @ [(k, off)])]\<rparr>) p k
               = (1, v\<lparr>pfxs := base @ [(p, es @ [(k, on)])]\<rparr>)"
    by (simp add: w_def L_def)
  show ?thesis
    unfolding pfx_peers_step_def
    using i idx by (simp add: pid add [unfolded k_def] actv [unfolded k_def] on_def)
qed

lemma fst_decode_pfx_peer: "fst (decode_pfx_peer pm am q) = pm ! unat (fst q)"
  by (cases q) (simp add: decode_pfx_peer_def)

lemma pfx_peers_fold:
  assumes pb: "p \<notin> fst ` set (pfxs v)"
    and act: "\<forall>x \<in> set (peers v). snd x"
    and dist: "distinct (map (\<lambda>q. pm ! unat (fst q)) pprs)"
    and ok: "\<forall>q \<in> set pprs. unat (fst q) < length pm \<and> unat (snd q) < length am
               \<and> am ! unat (snd q) \<noteq> None \<and> pm ! unat (fst q) \<in> fst ` set (peers v)"
  shows "fold_opt (pfx_peers_step pm am p) pprs (v, 0, 0)
           = Some (v\<lparr>pfxs := pfxs v @ (if pprs = [] then []
                                         else [(p, map (decode_pfx_peer pm am) pprs)])\<rparr>,
                   length pprs, length pprs)"
  using dist ok
proof (induction pprs rule: rev_induct)
  case Nil
  show ?case by simp
next
  case (snoc q qs)
  obtain i idx where q: "q = (i, idx)" by (cases q)
  from snoc.prems have pre: "distinct (map (\<lambda>q. pm ! unat (fst q)) qs)"
    "\<forall>q \<in> set qs. unat (fst q) < length pm \<and> unat (snd q) < length am
       \<and> am ! unat (snd q) \<noteq> None \<and> pm ! unat (fst q) \<in> fst ` set (peers v)"
    by simp_all
  define es where "es = map (decode_pfx_peer pm am) qs"
  define v1 where "v1 = v\<lparr>pfxs := pfxs v @ (if qs = [] then [] else [(p, es)])\<rparr>"
  have ih: "fold_opt (pfx_peers_step pm am p) qs (v, 0, 0) = Some (v1, length qs, length qs)"
    using snoc.IH [OF pre] by (simp add: v1_def es_def)
  have e0: "(es = []) = (qs = [])" by (simp add: es_def)
  have shape: "pfxs v1 = pfxs v @ (if es = [] then [] else [(p, es)])"
    by (simp add: v1_def e0)
  from snoc.prems(2) q obtain pid where
    c: "unat i < length pm" "unat idx < length am" "am ! unat idx = Some pid"
       "pm ! unat i \<in> fst ` set (peers v)"
    by auto
  have "fst ` set es = (\<lambda>q. pm ! unat (fst q)) ` set qs"
    by (simp add: es_def image_image fst_decode_pfx_peer)
  then have fresh: "pm ! unat i \<notin> fst ` set es"
    using snoc.prems(1) q by simp
  have st: "pfx_peers_step pm am p (i, idx) (v1, length qs, length qs)
              = Some (v1\<lparr>pfxs := pfxs v @ [(p, es @ [(pm ! unat i,
                                                       \<lparr>pp_path_id = pid, pp_active = True\<rparr>)])]\<rparr>,
                      length qs + 1, length qs + 1)"
    by (rule pfx_peers_step_fresh [OF shape pb c(1,2,3)])
       (use c(4) fresh act in \<open>simp_all add: v1_def\<close>)
  have dq: "decode_pfx_peer pm am (i, idx) = (pm ! unat i, \<lparr>pp_path_id = pid, pp_active = True\<rparr>)"
    by (simp add: decode_pfx_peer_def c(3))
  show ?case
    by (simp add: fold_opt_snoc ih q st) (simp add: v1_def es_def dq)
qed

lemma pfxs_step_fresh:
  assumes "p \<notin> fst ` set (pfxs v)" "\<forall>x \<in> set (peers v). snd x" "pprs \<noteq> []"
    and "distinct (map (\<lambda>q. pm ! unat (fst q)) pprs)"
    and "\<forall>q \<in> set pprs. unat (fst q) < length pm \<and> unat (snd q) < length am
           \<and> am ! unat (snd q) \<noteq> None \<and> pm ! unat (fst q) \<in> fst ` set (peers v)"
  shows "pfxs_step pm am (p, pprs) (v, n)
           = Some (v\<lparr>pfxs := pfxs v @ [decode_pfx pm am (p, pprs)]\<rparr>, n + 1)"
  using assms(3)
  by (simp add: pfxs_step_def pfx_peers_fold [OF assms(1,2,4,5)] decode_pfx_def)

lemma pfxs_fold:
  assumes e: "pfxs v = []"
    and act: "\<forall>x \<in> set (peers v). snd x"
    and dist: "distinct (map fst xrecs)"
    and ok: "\<forall>r \<in> set xrecs. snd r \<noteq> [] \<and> distinct (map (\<lambda>q. pm ! unat (fst q)) (snd r))
               \<and> (\<forall>q \<in> set (snd r). unat (fst q) < length pm \<and> unat (snd q) < length am
                     \<and> am ! unat (snd q) \<noteq> None \<and> pm ! unat (fst q) \<in> fst ` set (peers v))"
  shows "fold_opt (pfxs_step pm am) xrecs (v, 0)
           = Some (v\<lparr>pfxs := map (decode_pfx pm am) xrecs\<rparr>, length xrecs)"
  using dist ok
proof (induction xrecs rule: rev_induct)
  case Nil
  show ?case using e by simp
next
  case (snoc r rs)
  obtain p pprs where r: "r = (p, pprs)" by (cases r)
  from snoc.prems have pre: "distinct (map fst rs)"
    "\<forall>r \<in> set rs. snd r \<noteq> [] \<and> distinct (map (\<lambda>q. pm ! unat (fst q)) (snd r))
       \<and> (\<forall>q \<in> set (snd r). unat (fst q) < length pm \<and> unat (snd q) < length am
             \<and> am ! unat (snd q) \<noteq> None \<and> pm ! unat (fst q) \<in> fst ` set (peers v))"
    by simp_all
  define v1 where "v1 = v\<lparr>pfxs := map (decode_pfx pm am) rs\<rparr>"
  have ih: "fold_opt (pfxs_step pm am) rs (v, 0) = Some (v1, length rs)"
    using snoc.IH [OF pre] by (simp add: v1_def)
  have "fst ` set (pfxs v1) = fst ` set rs"
    by (auto simp: v1_def decode_pfx_def image_iff split: prod.splits) force+
  then have pb: "p \<notin> fst ` set (pfxs v1)" using snoc.prems(1) r by simp
  have c: "pprs \<noteq> []" "distinct (map (\<lambda>q. pm ! unat (fst q)) pprs)"
    "\<forall>q \<in> set pprs. unat (fst q) < length pm \<and> unat (snd q) < length am
       \<and> am ! unat (snd q) \<noteq> None \<and> pm ! unat (fst q) \<in> fst ` set (peers v1)"
    using snoc.prems(2) r by (simp_all add: v1_def)
  have a1: "\<forall>x \<in> set (peers v1). snd x" using act by (simp add: v1_def)
  show ?case
    by (simp add: fold_opt_snoc ih r pfxs_step_fresh [OF pb a1 c]) (simp add: v1_def)
qed

section \<open>The writer on a view it can carry\<close>

lemma peer_records_map:
  "list_all (peer_ok v) (active_peers v) \<Longrightarrow>
   peer_records v = map (peer_record v) (active_peers v)"
proof -
  have "list_all (peer_ok v) ids \<Longrightarrow>
        concat (map (\<lambda>i. case sig_lookup (sig_store v) i of None \<Rightarrow> [] | Some ps \<Rightarrow> [(i, ps)]) ids)
          = map (peer_record v) ids" for ids
    by (induction ids) (auto simp: peer_ok_def peer_record_def split: option.splits)
  then show "list_all (peer_ok v) (active_peers v) \<Longrightarrow> ?thesis"
    by (simp add: peer_records_def)
qed

lemma pfx_peer_records_map:
  "list_all (pfx_peer_ok v) pps \<Longrightarrow> pfx_peer_records v pps = map (pfx_peer_record v) pps"
  unfolding pfx_peer_records_def
  by (induction pps) (auto simp: pfx_peer_ok_def pfx_peer_record_def split: option.splits)

lemma pfx_records_map:
  assumes "list_all (pfx_ok v) (active_pfxs v)"
  shows "pfx_records v = map (pfx_record v) (active_pfxs v)"
proof -
  have "map (\<lambda>(p, pps). (p, pfx_peer_records v (active_pfx_peers pps))) es = map (pfx_record v) es"
    if "list_all (pfx_ok v) es" for es
    using that
    by (induction es) (auto simp: pfx_ok_def pfx_record_def pfx_peer_records_map)
  then show ?thesis using assms by (simp add: pfx_records_def)
qed

lemma wire_peers_records:
  assumes "list_all (peer_ok v) (active_peers v)"
  shows "wire_peers v
           = concat (map enc_peer (peer_records v)) @ wire_magic VIEW_PEER_END_MAGIC
             @ be_bytes 2 (word_of_nat (length (peer_records v)) :: 16 word)"
proof -
  have "list_all (peer_ok v) ids \<Longrightarrow>
        concat (map (\<lambda>i. case sig_lookup (sig_store v) i of None \<Rightarrow> []
                                                             | Some ps \<Rightarrow> wire_peer i ps) ids)
          = concat (map enc_peer (map (peer_record v) ids))" for ids
    by (induction ids) (auto simp: peer_ok_def peer_record_def enc_peer_def split: option.splits)
  then show ?thesis
    using assms by (simp add: wire_peers_def peer_records_map)
qed

lemma wire_pfx_peers_records:
  "list_all (pfx_peer_ok v) pps \<Longrightarrow>
   wire_pfx_peers h v pps = concat (map (enc_pfx_peer h) (map (pfx_peer_record v) pps))"
  unfolding wire_pfx_peers_def
  by (induction pps)
     (auto simp: pfx_peer_ok_def pfx_peer_record_def enc_pfx_peer_def split: option.splits)

lemma wire_pfx_record: "pfx_ok v e \<Longrightarrow> wire_pfx h v e = enc_pfx h (pfx_record v e)"
  by (cases e) (simp add: pfx_ok_def wire_pfx_def enc_pfx_def pfx_record_def wire_pfx_peers_records)

lemma wire_pfxs_records:
  assumes "list_all (pfx_ok v) (active_pfxs v)"
  shows "wire_pfxs h v
           = concat (map (enc_pfx h) (pfx_records v)) @ wire_magic VIEW_PFX_END_MAGIC
             @ be_bytes 4 (word_of_nat (length (pfx_records v)) :: 32 word)"
proof -
  have "concat (map (wire_pfx h v) es) = concat (map (enc_pfx h) (map (pfx_record v) es))"
    if "list_all (pfx_ok v) es" for es
    using that by (induction es) (simp_all add: wire_pfx_record)
  then show ?thesis using assms by (simp add: wire_pfxs_def pfx_records_map)
qed

lemma write_ip_ok: "ip \<noteq> Addr_unknown \<Longrightarrow> write_ip ip = Inr (wire_ip ip)"
  by (cases ip) (simp_all add: write_ip_def wire_ip_def WRITE_VAL8_def)

lemma write_peers_loop_ok:
  "list_all (peer_ok v) ids \<Longrightarrow> \<exists>r. write_peers_loop h None v ids out n = Inr r"
proof (induction ids arbitrary: out n)
  case Nil
  show ?case by simp
next
  case (Cons i ids)
  from Cons.prems obtain ps where ps: "sig_lookup (sig_store v) i = Some ps"
    "length (collector_str ps) \<le> 255" "peer_ip_addr ps \<noteq> Addr_unknown"
    by (auto simp: peer_ok_def peer_wire_ok_def split: option.splits)
  then obtain bs where "write_peer_record h v i = Inr bs"
    by (simp add: write_peer_record_def write_ip_ok)
  moreover have "list_all (peer_ok v) ids" using Cons.prems by simp
  ultimately show ?case using Cons.IH by (simp add: ask_filter_def)
qed

lemma write_peers_ok:
  assumes "list_all (peer_ok v) (active_peers v)" "length (active_peers v) \<le> 65534"
  shows "\<exists>bs. write_peers h None v = Inr bs"
proof -
  from write_peers_loop_ok [OF assms(1)] obtain out n where
    l: "write_peers_loop h None v (active_peers v) [] 0 = Inr (out, n)" by fastforce
  from write_peers_loop_wire [OF l] have "n = length (active_peers v)" by simp
  then show ?thesis using l assms(2) by (simp add: write_peers_def)
qed

lemma peer_ok_nonzero: "peer_ok v i \<Longrightarrow> i \<noteq> 0"
  by (auto simp: peer_ok_def sig_lookup_def split: option.splits)

lemma write_pfx_peers_ok:
  "list_all (pfx_peer_ok v) pps \<Longrightarrow> list_all (peer_ok v) (active_peers v) \<Longrightarrow>
   \<exists>r. write_pfx_peers h None v p pps out n = Inr r"
proof (induction pps arbitrary: out n)
  case Nil
  show ?case by simp
next
  case (Cons a pps)
  obtain i info where a: "a = (i, info)" by (cases a)
  from Cons.prems a have "i \<in> set (active_peers v)" by (simp add: pfx_peer_ok_def)
  then have "peer_ok v i" using Cons.prems(2) by (simp add: list_all_iff)
  then have nz: "0 < i" using peer_ok_nonzero word_gt_0 by blast
  from Cons.prems a obtain sp where
    sp: "path_store_get_store_path (path_store v) (pp_path_id info) = Some sp"
    by (auto simp: pfx_peer_ok_def)
  have "list_all (pfx_peer_ok v) pps" using Cons.prems by simp
  from Cons.IH [OF this Cons.prems(2)] show ?case
    using nz sp by (simp add: a ask_filter_def)
qed

lemma write_pfxs_loop_ok:
  "list_all (pfx_ok v) es \<Longrightarrow> list_all (peer_ok v) (active_peers v) \<Longrightarrow>
   \<exists>r. write_pfxs_loop h None v es out n = Inr r"
proof (induction es arbitrary: out n)
  case Nil
  show ?case by simp
next
  case (Cons e es)
  obtain p pps where e: "e = (p, pps)" by (cases e)
  from Cons.prems e have ok: "address p \<noteq> Addr_unknown"
    "list_all (pfx_peer_ok v) (active_pfx_peers pps)" by (simp_all add: pfx_ok_def)
  from ok(1) obtain ip where ip: "write_ip (address p) = Inr ip"
    by (simp add: write_ip_ok)
  from write_pfx_peers_ok [OF ok(2) Cons.prems(2)] obtain o1 c1 where
    pp: "write_pfx_peers h None v p (active_pfx_peers pps) (out @ ip @ WRITE_VAL8 (mask_len p)) 0
           = Inr (o1, c1)" by fastforce
  have "list_all (pfx_ok v) es" using Cons.prems by simp
  note ih = Cons.IH [OF this Cons.prems(2)]
  show ?case
    using ih [of o1 n]
      ih [of "o1 @ WRITE_MAGIC h VIEW_PEER_END_MAGIC @ WRITE_VAL16 h (htons h (word_of_nat c1))"
             "n + 1"]
    by (simp add: e ask_filter_def ip pp)
qed

lemma file_write_ok:
  assumes "codec_wf v"
  shows "bgpview_io_file_write h None (Some v) = Inr (wire_view h v)"
proof -
  from assms have a: "list_all (peer_ok v) (active_peers v)" "length (active_peers v) \<le> 65534"
    "list_all (pfx_ok v) (active_pfxs v)" by (simp_all add: codec_wf_def)
  from write_peers_ok [OF a(1,2)] obtain pb where pb: "write_peers h None v = Inr pb" by blast
  from write_pfxs_loop_ok [OF a(3,1)] obtain r where
    "write_pfxs_loop h None v (active_pfxs v) [] 0 = Inr r" by blast
  then obtain xb where xb: "write_pfxs h None v = Inr xb"
    by (cases r) (simp add: write_pfxs_def)
  have "\<exists>bs. bgpview_io_file_write h None (Some v) = Inr bs"
    by (simp add: bgpview_io_file_write_def pb xb write_paths_wire)
  then obtain bs where bs: "bgpview_io_file_write h None (Some v) = Inr bs" by blast
  from file_write_wire [OF bs] bs show ?thesis by simp
qed
lemma distinct_length_le: "distinct xs \<Longrightarrow> set xs \<subseteq> set ys \<Longrightarrow> length xs \<le> length ys"
  by (metis card_length card_mono distinct_card le_trans List.finite_set)

lemma bounded_distinct_length:
  assumes "distinct (map f xs)" "\<forall>x \<in> set xs. f x < (n::nat)"
  shows "length xs \<le> n"
proof -
  have "card (set (map f xs)) = length (map f xs)" using assms(1) by (rule distinct_card)
  then have "length xs = card (set (map f xs))" by simp
  also have "\<dots> \<le> card {..<n}" using assms(2) by (intro card_mono) auto
  finally show ?thesis by simp
qed

lemma path_count:
  assumes "distinct (map sp_idx sps)" "\<forall>sp \<in> set sps. unat (sp_idx sp) < 2 ^ 30"
  shows "length sps \<le> 2 ^ 30"
proof -
  have "distinct (map (\<lambda>sp. unat (sp_idx sp)) sps)"
    using assms(1) by (simp add: distinct_map inj_on_def word_unat_eq_iff)
  then show ?thesis using assms(2) by (rule bounded_distinct_length)
qed

lemma get_store_path_Some:
  "path_store_get_store_path store pid = Some sp \<Longrightarrow>
   sp \<in> set store \<and> sp_idx sp = store_index pid \<and> sp_is_core sp = is_core pid"
  by (auto simp: path_store_get_store_path_def find_Some_iff)

lemma distinct_map_the:
  assumes "distinct (map f xs)" "\<forall>x \<in> set xs. f x \<noteq> None"
  shows "distinct (map (\<lambda>x. the (f x)) xs)"
proof -
  have "x = y" if "x \<in> set xs" "y \<in> set xs" "the (f x) = the (f y)" for x y
  proof -
    from that assms(2) have "f x \<noteq> None" "f y \<noteq> None" by blast+
    then obtain a b where "f x = Some a" "f y = Some b" by blast
    then have "f x = f y" using that(3) by simp
    then show ?thesis using assms(1) that(1,2) by (auto simp: distinct_map inj_on_def)
  qed
  then have "inj_on (\<lambda>x. the (f x)) (set xs)" by (auto simp: inj_on_def)
  then show ?thesis using assms(1) by (simp add: distinct_map)
qed

lemma peer_ok_record: "peer_ok v i \<Longrightarrow> peer_wire_ok (peer_record v i)"
  by (auto simp: peer_ok_def peer_record_def split: option.splits)

lemma fst_peer_record [simp]: "fst (peer_record v i) = i"
  by (simp add: peer_record_def)

lemma fst_pfx_peer_record [simp]: "fst (pfx_peer_record v q) = fst q"
  by (cases q) (simp add: pfx_peer_record_def)

lemma fst_pfx_record [simp]: "fst (pfx_record v e) = fst e"
  by (cases e) (simp add: pfx_record_def)

lemma snd_pfx_record: "snd (pfx_record v e) = map (pfx_peer_record v) (active_pfx_peers (snd e))"
  by (cases e) (simp add: pfx_record_def)

lemma pfx_peer_record_path:
  assumes "pfx_peer_ok v q"
  shows "\<exists>k < length (path_store v). snd (pfx_peer_record v q) = sp_idx (path_store v ! k)
           \<and> path_store_get_store_path (path_store v) (pp_path_id (snd q))
               = Some (path_store v ! k)"
proof -
  obtain i info where q: "q = (i, info)" by (cases q)
  from assms q obtain sp where
    sp: "path_store_get_store_path (path_store v) (pp_path_id info) = Some sp"
    by (auto simp: pfx_peer_ok_def)
  from get_store_path_Some [OF sp] obtain k where "k < length (path_store v)"
    "path_store v ! k = sp" by (auto simp: in_set_conv_nth)
  then show ?thesis using sp q by (auto simp: pfx_peer_record_def)
qed

lemma active_pfxs_nonempty: "e \<in> set (active_pfxs v) \<Longrightarrow> active_pfx_peers (snd e) \<noteq> []"
  by (auto simp: active_pfxs_def)

lemma word16_of_nat_inj:
  "a < 65536 \<Longrightarrow> b < 65536 \<Longrightarrow> (word_of_nat a :: 16 word) = word_of_nat b \<Longrightarrow> a = b"
  by (metis unat_word16_of_nat)

lemma word32_of_nat_inj:
  "a < 4294967296 \<Longrightarrow> b < 4294967296 \<Longrightarrow> (word_of_nat a :: 32 word) = word_of_nat b \<Longrightarrow> a = b"
  by (metis unat_word32_of_nat)
lemma file_read_decoded:
  assumes wf: "codec_wf V"
  shows "\<exists>pm am.
           (\<forall>u. bgpview_io_file_read u h None None None (wire_view h V) (Some empty_view)
                  = (Inr 1, [], Some (decoded_view pm am V)))
           \<and> (\<forall>j < length (active_peers V).
                  unat (active_peers V ! j) < length pm
                  \<and> pm ! unat (active_peers V ! j) = word_of_nat (j + 1))
           \<and> (\<forall>k < length (path_store V).
                  unat (sp_idx (path_store V ! k)) < length am
                  \<and> am ! unat (sp_idx (path_store V ! k))
                      = Some \<lparr>store_index = word_of_nat k,
                              is_core = sp_is_core (path_store V ! k)\<rparr>)"
proof -
  define ids where "ids = active_peers V"
  define sps where "sps = path_store V"
  define es where "es = active_pfxs V"
  define precs where "precs = map (peer_record V) ids"
  define xrecs where "xrecs = map (pfx_record V) es"
  define t where "t = view_time V"
  from wf have w: "distinct ids" "length ids \<le> 65534" "list_all (peer_ok V) ids"
    "distinct (map (sig_lookup (sig_store V)) ids)"
    "distinct (map sp_idx sps)" "distinct (map (\<lambda>sp. (sp_data sp, sp_is_core sp)) sps)"
    "list_all path_wire_ok sps"
    "distinct (map fst es)" "length es < 4294967295" "list_all (pfx_ok V) es"
    by (simp_all add: codec_wf_def ids_def sps_def es_def)
  have pr: "peer_records V = precs"
    using w(3) by (simp add: peer_records_map precs_def ids_def)
  have xr: "pfx_records V = xrecs"
    using w(10) by (simp add: pfx_records_map xrecs_def es_def)
  have p_ok: "\<forall>r \<in> set precs. peer_wire_ok r"
    using w(3) by (auto simp: precs_def list_all_iff peer_ok_record)
  have p_len: "length precs < 65535" using w(2) by (simp add: precs_def)
  have some: "\<forall>i \<in> set ids. sig_lookup (sig_store V) i \<noteq> None"
    using w(3) by (auto simp: list_all_iff peer_ok_def split: option.splits)
  have p_d1: "distinct (map snd precs)"
    using distinct_map_the [OF w(4) some] by (simp add: precs_def peer_record_def comp_def)
  have p_d2: "distinct (map fst precs)"
    using w(1) by (simp add: precs_def comp_def)
  have p_c: "\<forall>r \<in> set precs. length (collector_str (snd r)) \<le> 255"
    using p_ok by (auto simp: peer_wire_ok_def)
  define v0 where "v0 = bgpview_set_time empty_view t"
  have v0: "sig_store v0 = []" "peers v0 = []" "path_store v0 = []" "pfxs v0 = []"
    by (simp_all add: v0_def bgpview_set_time_def empty_view_def)
  define v1 where "v1 = v0\<lparr>sig_store := map snd precs, peers := seq_peers (length precs)\<rparr>"
  from peers_fold [OF p_d1 p_d2 _ p_c v0(1,2)] w(2) obtain pm where
    pf: "fold_opt peers_step precs (v0, [], 0) = Some (v1, pm, length precs)"
    and pm: "\<forall>j < length precs. unat (fst (precs ! j)) < length pm
               \<and> pm ! unat (fst (precs ! j)) = word_of_nat (j + 1)"
    unfolding v1_def by (auto simp: precs_def)
  have pm_ids: "\<forall>j < length ids. unat (ids ! j) < length pm
                  \<and> pm ! unat (ids ! j) = word_of_nat (j + 1)"
    using pm by (simp add: precs_def)
  have a_ok: "\<forall>r \<in> set sps. path_wire_ok r" using w(7) by (simp add: list_all_iff)
  have a_b: "\<forall>sp \<in> set sps. unat (sp_idx sp) < 2 ^ 30"
    using a_ok by (simp add: path_wire_ok_def)
  have a_len: "length sps < 4294967295" using path_count [OF w(5) a_b] by simp
  define v2 where "v2 = v1\<lparr>path_store := decoded_paths sps\<rparr>"
  have "path_store v1 = []" by (simp add: v1_def v0)
  from paths_fold [OF w(5,6) a_b this] obtain am where
    af: "fold_opt paths_step sps (v1, [], 0) = Some (v2, am, length sps)"
    and am: "\<forall>k < length sps. unat (sp_idx (sps ! k)) < length am
               \<and> am ! unat (sp_idx (sps ! k))
                   = Some \<lparr>store_index = word_of_nat k, is_core = sp_is_core (sps ! k)\<rparr>"
    unfolding v2_def by blast
  have e_ok: "pfx_ok V e" if "e \<in> set es" for e using w(10) that by (simp add: list_all_iff)
  have q_ok: "pfx_peer_ok V q" if "e \<in> set es" "q \<in> set (active_pfx_peers (snd e))" for e q
    using e_ok [OF that(1)] that(2) by (cases e) (auto simp: pfx_ok_def list_all_iff)
  have q_id: "fst q \<in> set ids" if "e \<in> set es" "q \<in> set (active_pfx_peers (snd e))" for e q
    using q_ok [OF that] by (cases q) (simp add: pfx_peer_ok_def ids_def)
  have q_path: "\<exists>k < length sps. snd (pfx_peer_record V q) = sp_idx (sps ! k)"
    if "e \<in> set es" "q \<in> set (active_pfx_peers (snd e))" for e q
    using pfx_peer_record_path [OF q_ok [OF that]] unfolding sps_def by blast
  have e_d: "distinct (map fst (active_pfx_peers (snd e)))" if "e \<in> set es" for e
    using e_ok [OF that] by (cases e) (simp add: pfx_ok_def)
  have e_len: "length (active_pfx_peers (snd e)) < 65535" if "e \<in> set es" for e
  proof -
    have "set (map fst (active_pfx_peers (snd e))) \<subseteq> set ids"
      using q_id [OF that] by auto
    from distinct_length_le [OF e_d [OF that] this] w(2) show ?thesis by simp
  qed
  have x_ok: "\<forall>r \<in> set xrecs. pfx_wire_ok r"
  proof
    fix r assume "r \<in> set xrecs"
    then obtain e where e: "e \<in> set es" "r = pfx_record V e" by (auto simp: xrecs_def)
    obtain p pps where pp: "e = (p, pps)" by (cases e)
    have "address p \<noteq> Addr_unknown" using e_ok [OF e(1)] pp by (simp add: pfx_ok_def)
    moreover have "length (active_pfx_peers pps) < 65535" using e_len [OF e(1)] pp by simp
    moreover have "unat (snd (pfx_peer_record V q)) < 2 ^ 30"
      if "q \<in> set (active_pfx_peers pps)" for q
    proof -
      from q_path [OF e(1), of q] that pp obtain k where
        "k < length sps" "snd (pfx_peer_record V q) = sp_idx (sps ! k)" by auto
      then show ?thesis using a_b by simp
    qed
    ultimately show "pfx_wire_ok r"
      by (auto simp: e(2) pp pfx_record_def pfx_wire_ok_def list_all_iff case_prod_beta)
  qed
  have x_len: "length xrecs < 4294967295" using w(9) by (simp add: xrecs_def)
  have x_d: "distinct (map fst xrecs)" using w(8) by (simp add: xrecs_def comp_def)
  have inj: "inj_on (\<lambda>i. pm ! unat i) (set ids)"
  proof (rule inj_onI)
    fix a b assume ab: "a \<in> set ids" "b \<in> set ids" "pm ! unat a = pm ! unat b"
    then obtain j k where jk: "j < length ids" "ids ! j = a" "k < length ids" "ids ! k = b"
      by (auto simp: in_set_conv_nth)
    then have "(word_of_nat (j + 1) :: 16 word) = word_of_nat (k + 1)"
      using pm_ids ab(3) by metis
    then have "j + 1 = k + 1"
      using jk(1,3) w(2) by (intro word16_of_nat_inj) simp_all
    then show "a = b" using jk by simp
  qed
  have v2p: "peers v2 = seq_peers (length ids)" "pfxs v2 = []"
    by (simp_all add: v2_def v1_def v0 precs_def)
  have act: "\<forall>x \<in> set (peers v2). snd x" using seq_peers_all_true by (simp add: v2p)
  have x_c: "\<forall>r \<in> set xrecs. snd r \<noteq> [] \<and> distinct (map (\<lambda>q. pm ! unat (fst q)) (snd r))
               \<and> (\<forall>q \<in> set (snd r). unat (fst q) < length pm \<and> unat (snd q) < length am
                     \<and> am ! unat (snd q) \<noteq> None \<and> pm ! unat (fst q) \<in> fst ` set (peers v2))"
  proof
    fix r assume "r \<in> set xrecs"
    then obtain e where e: "e \<in> set es" "r = pfx_record V e" by (auto simp: xrecs_def)
    define aps where "aps = active_pfx_peers (snd e)"
    have sr: "snd r = map (pfx_peer_record V) aps" by (simp add: e(2) snd_pfx_record aps_def)
    have c1: "snd r \<noteq> []"
      using active_pfxs_nonempty [of e V] e(1) by (simp add: sr aps_def es_def)
    have sub: "set (map fst aps) \<subseteq> set ids" using q_id [OF e(1)] by (auto simp: aps_def)
    have d0: "distinct (map fst aps)" using e_d [OF e(1)] by (simp add: aps_def)
    have i2: "inj_on (\<lambda>i. pm ! unat i) (set (map fst aps))" by (rule inj_on_subset [OF inj sub])
    have "distinct (map (\<lambda>i. pm ! unat i) (map fst aps))"
      by (rule iffD2 [OF distinct_map, OF conjI [OF d0 i2]])
    then have c2: "distinct (map (\<lambda>q. pm ! unat (fst q)) (snd r))"
      by (simp add: sr comp_def)
    have c3: "unat (fst q) < length pm \<and> unat (snd q) < length am
                \<and> am ! unat (snd q) \<noteq> None \<and> pm ! unat (fst q) \<in> fst ` set (peers v2)"
      if "q \<in> set (snd r)" for q
    proof -
      from that obtain q0 where q0: "q0 \<in> set aps" "q = pfx_peer_record V q0"
        by (auto simp: sr)
      have "fst q \<in> set ids" using q_id [OF e(1), of q0] q0 by (simp add: aps_def)
      then obtain j where j: "j < length ids" "ids ! j = fst q" by (auto simp: in_set_conv_nth)
      then have pj: "unat (fst q) < length pm" "pm ! unat (fst q) = word_of_nat (j + 1)"
        using pm_ids by auto
      have "(word_of_nat (j + 1) :: 16 word) \<in> fst ` set (seq_peers (length ids))"
        using j(1) by (force simp: seq_peers_def)
      then have k1: "pm ! unat (fst q) \<in> fst ` set (peers v2)" by (simp add: pj(2) v2p)
      from q_path [OF e(1), of q0] q0 obtain k where
        k: "k < length sps" "snd q = sp_idx (sps ! k)" by (auto simp: aps_def)
      then have "unat (snd q) < length am \<and> am ! unat (snd q) \<noteq> None" using am by simp
      then show ?thesis using pj(1) k1 by simp
    qed
    show "snd r \<noteq> [] \<and> distinct (map (\<lambda>q. pm ! unat (fst q)) (snd r))
            \<and> (\<forall>q \<in> set (snd r). unat (fst q) < length pm \<and> unat (snd q) < length am
                  \<and> am ! unat (snd q) \<noteq> None \<and> pm ! unat (fst q) \<in> fst ` set (peers v2))"
      using c1 c2 c3 by blast
  qed
  define v3 where "v3 = v2\<lparr>pfxs := map (decode_pfx pm am) xrecs\<rparr>"
  have xf: "fold_opt (pfxs_step pm am) xrecs (v2, 0) = Some (v3, length xrecs)"
    unfolding v3_def by (rule pfxs_fold [OF v2p(2) act x_d x_c])
  have bytes: "wire_view h V
                 = wire_magic VIEW_START_MAGIC @ be_bytes 4 t
                   @ (concat (map enc_peer precs) @ wire_magic VIEW_PEER_END_MAGIC
                        @ be_bytes 2 (word_of_nat (length precs) :: 16 word))
                   @ (concat (map (wire_path h) sps) @ wire_magic VIEW_PATH_END_MAGIC
                        @ be_bytes 4 (word_of_nat (length sps) :: 32 word))
                   @ (concat (map (enc_pfx h) xrecs) @ wire_magic VIEW_PFX_END_MAGIC
                        @ be_bytes 4 (word_of_nat (length xrecs) :: 32 word))
                   @ wire_magic VIEW_END_MAGIC"
    using w(3,10)
    by (simp add: wire_view_def wire_peers_records wire_pfxs_records wire_paths_def
          pr xr t_def sps_def ids_def es_def)
  have rd: "bgpview_io_file_read u h None None None (wire_view h V) (Some empty_view)
              = (Inr 1, [], Some v3)" for u
    unfolding bytes
    by (rule file_read_wire [OF p_ok p_len pf [unfolded v0_def] a_ok a_len af x_ok x_len xf])
  have "v3 = decoded_view pm am V"
    by (simp add: v3_def v2_def v1_def v0_def bgpview_set_time_def empty_view_def
          decoded_view_def precs_def xrecs_def t_def ids_def sps_def es_def comp_def)
  then show ?thesis
    using rd pm_ids am unfolding ids_def sps_def by blast
qed

section \<open>The view that the reader builds and what it says\<close>

lemma active_seq_peers:
  "map fst (filter snd (seq_peers n)) = map (\<lambda>j. word_of_nat (j + 1)) [0..<n]"
  by (simp add: seq_peers_def filter_map comp_def)

lemma sig_lookup_seq:
  assumes "j < length S" "length S \<le> 65534"
  shows "sig_lookup S (word_of_nat (j + 1)) = Some (S ! j)"
proof -
  have u: "unat (word_of_nat (j + 1) :: 16 word) = j + 1"
    using assms by (intro unat_word16_of_nat) simp
  then have "(word_of_nat (j + 1) :: 16 word) \<noteq> 0" by (metis Suc_eq_plus1 nat.simps(3) unat_0)
  then show ?thesis using assms(1) unfolding sig_lookup_def u by simp
qed

lemma get_decoded_path:
  assumes "k < length sps" "length sps \<le> 2 ^ 30"
  shows "path_store_get_store_path (decoded_paths sps)
           \<lparr>store_index = word_of_nat k, is_core = sp_is_core (sps ! k)\<rparr>
         = Some (decoded_paths sps ! k)"
proof -
  have ne: "(word_of_nat j :: 32 word) \<noteq> word_of_nat k" if "j < k" for j
  proof
    assume "(word_of_nat j :: 32 word) = word_of_nat k"
    then have "j = k" using that assms by (intro word32_of_nat_inj) simp_all
    then show False using that by simp
  qed
  show ?thesis
    unfolding path_store_get_store_path_def find_Some_iff
    using assms(1) ne by (intro exI [of _ k]) (simp add: decoded_paths_nth)
qed

lemma active_pfx_peers_decoded:
  "active_pfx_peers (map (decode_pfx_peer pm am) qs) = map (decode_pfx_peer pm am) qs"
  by (induction qs) (auto simp: active_pfx_peers_def decode_pfx_peer_def split: prod.splits)

lemma active_pfx_peers_decoded_comp:
  "active_pfx_peers (map (decode_pfx_peer pm am \<circ> f) qs) = map (decode_pfx_peer pm am \<circ> f) qs"
  using active_pfx_peers_decoded [of pm am "map f qs"] by simp

lemma decoded_view_content:
  assumes wf: "codec_wf V"
    and pm: "\<forall>j < length (active_peers V).
               unat (active_peers V ! j) < length pm
               \<and> pm ! unat (active_peers V ! j) = word_of_nat (j + 1)"
    and am: "\<forall>k < length (path_store V).
               unat (sp_idx (path_store V ! k)) < length am
               \<and> am ! unat (sp_idx (path_store V ! k))
                   = Some \<lparr>store_index = word_of_nat k, is_core = sp_is_core (path_store V ! k)\<rparr>"
  shows "active_content (decoded_view pm am V) = active_content V
         \<and> all_active (decoded_view pm am V)"
proof -
  define D where "D = decoded_view pm am V"
  define ids where "ids = active_peers V"
  define sps where "sps = path_store V"
  define es where "es = active_pfxs V"
  define S where "S = map (\<lambda>i. snd (peer_record V i)) ids"
  from wf have w: "length ids \<le> 65534" "list_all (peer_ok V) ids"
    "distinct (map sp_idx sps)" "list_all path_wire_ok sps" "list_all (pfx_ok V) es"
    by (simp_all add: codec_wf_def ids_def sps_def es_def)
  have d: "view_time D = view_time V" "sig_store D = S" "path_store D = decoded_paths sps"
    "peers D = seq_peers (length ids)"
    "pfxs D = map (\<lambda>e. decode_pfx pm am (pfx_record V e)) es"
    by (simp_all add: D_def decoded_view_def S_def ids_def sps_def es_def)
  have lenS: "length S = length ids" by (simp add: S_def)
  have a_b: "\<forall>sp \<in> set sps. unat (sp_idx sp) < 2 ^ 30"
    using w(4) by (simp add: list_all_iff path_wire_ok_def)
  have a_len: "length sps \<le> 2 ^ 30" by (rule path_count [OF w(3) a_b])
  have look: "sig_lookup (sig_store V) i = Some (snd (peer_record V i))" if "i \<in> set ids" for i
    using w(2) that by (auto simp: list_all_iff peer_ok_def peer_record_def split: option.splits)
  have "peer_sigs D = map (\<lambda>j. sig_lookup S (word_of_nat (j + 1))) [0..<length S]"
    by (simp add: peer_sigs_def active_peers_def d active_seq_peers lenS comp_def)
  also have "\<dots> = map (\<lambda>j. Some (S ! j)) [0..<length S]"
    using w(1) by (intro map_cong refl) (rule sig_lookup_seq, simp_all add: lenS)
  also have "\<dots> = map Some (map (\<lambda>j. S ! j) [0..<length S])" by (simp add: comp_def)
  also have "\<dots> = map Some S" by (simp only: map_nth)
  also have "\<dots> = peer_sigs V"
    unfolding peer_sigs_def ids_def [symmetric] S_def
    by (simp add: comp_def look cong: map_cong)
  finally have c_peers: "peer_sigs D = peer_sigs V" .
  have e_ok: "pfx_ok V e" if "e \<in> set es" for e using w(5) that by (simp add: list_all_iff)
  have q_ok: "pfx_peer_ok V q" if "e \<in> set es" "q \<in> set (active_pfx_peers (snd e))" for e q
    using e_ok [OF that(1)] that(2) by (cases e) (auto simp: pfx_ok_def list_all_iff)
  have c_q: "pfx_peer_content D (decode_pfx_peer pm am (pfx_peer_record V q))
               = pfx_peer_content V q"
    if "e \<in> set es" "q \<in> set (active_pfx_peers (snd e))" for e q
  proof -
    obtain i info where q: "q = (i, info)" by (cases q)
    have "i \<in> set ids" using q_ok [OF that] q by (simp add: pfx_peer_ok_def ids_def)
    then obtain j where j: "j < length ids" "ids ! j = i" by (auto simp: in_set_conv_nth)
    have pj: "pm ! unat i = word_of_nat (j + 1)" using pm j by (auto simp: ids_def)
    have iin: "i \<in> set ids" using j by auto
    have "sig_lookup S (word_of_nat (j + 1)) = Some (S ! j)"
      by (rule sig_lookup_seq) (simp_all add: lenS j w(1))
    also have "S ! j = snd (peer_record V i)" using j by (simp add: S_def)
    finally have s1: "sig_lookup S (pm ! unat i) = sig_lookup (sig_store V) i"
      unfolding pj look [OF iin] .
    from pfx_peer_record_path [OF q_ok [OF that]] q obtain k where
      k: "k < length sps" "snd (pfx_peer_record V (i, info)) = sp_idx (sps ! k)"
         "path_store_get_store_path (path_store V) (pp_path_id info) = Some (sps ! k)"
      by (auto simp: sps_def)
    have rq: "pfx_peer_record V (i, info) = (i, sp_idx (sps ! k))"
      using k(2) by (simp add: pfx_peer_record_def)
    have ak: "am ! unat (sp_idx (sps ! k))
                = Some \<lparr>store_index = word_of_nat k, is_core = sp_is_core (sps ! k)\<rparr>"
      using am k(1) by (simp add: sps_def)
    have dq: "decode_pfx_peer pm am (i, sp_idx (sps ! k))
                = (pm ! unat i,
                   \<lparr>pp_path_id = \<lparr>store_index = word_of_nat k, is_core = sp_is_core (sps ! k)\<rparr>,
                    pp_active = True\<rparr>)"
      by (simp add: decode_pfx_peer_def ak)
    show ?thesis
      unfolding q rq dq
      by (simp add: pfx_peer_content_def d s1 k(3) get_decoded_path [OF k(1) a_len]
            decoded_paths_nth [OF k(1)])
  qed
  have c_e: "pfx_content D (decode_pfx pm am (pfx_record V e)) = pfx_content V e"
    if "e \<in> set es" for e
  proof -
    obtain p pps where e: "e = (p, pps)" by (cases e)
    have "map (\<lambda>q. pfx_peer_content D (decode_pfx_peer pm am (pfx_peer_record V q)))
            (active_pfx_peers pps)
          = map (pfx_peer_content V) (active_pfx_peers pps)"
      using c_q [OF that] e by (intro map_cong refl) simp
    then have m: "map (pfx_peer_content D)
                    (map (decode_pfx_peer pm am) (map (pfx_peer_record V) (active_pfx_peers pps)))
                  = map (pfx_peer_content V) (active_pfx_peers pps)"
      by (simp add: comp_def)
    have "pfx_content D (decode_pfx pm am (pfx_record V e))
            = (p, map (pfx_peer_content D)
                    (active_pfx_peers (map (decode_pfx_peer pm am)
                                         (map (pfx_peer_record V) (active_pfx_peers pps)))))"
      by (simp only: e pfx_content_def decode_pfx_def pfx_record_def prod.case)
    also have "\<dots> = (p, map (pfx_peer_content V) (active_pfx_peers pps))"
      by (simp only: active_pfx_peers_decoded m)
    also have "\<dots> = pfx_content V e"
      by (simp only: e pfx_content_def prod.case)
    finally show ?thesis .
  qed
  have keep: "active_pfx_peers (snd (decode_pfx pm am (pfx_record V e))) \<noteq> []"
    if "e \<in> set es" for e
    using active_pfxs_nonempty [of e V] that
    by (cases e) (simp add: decode_pfx_def pfx_record_def active_pfx_peers_decoded_comp es_def)
  have "active_pfxs D = pfxs D"
    unfolding active_pfxs_def d
    by (rule filter_True) (use keep in \<open>auto simp: case_prod_beta\<close>)
  then have "map (pfx_content D) (active_pfxs D)
               = map (\<lambda>e. pfx_content D (decode_pfx pm am (pfx_record V e))) es"
    by (simp add: d comp_def)
  also have "\<dots> = map (pfx_content V) es"
    using c_e by (intro map_cong refl)
  finally have c_pfxs: "map (pfx_content D) (active_pfxs D) = map (pfx_content V) (active_pfxs V)"
    by (simp add: es_def)
  have c: "active_content D = active_content V"
    by (simp add: active_content_def d(1) c_peers c_pfxs)
  have a1: "list_all snd (peers D)" by (simp add: d list_all_iff seq_peers_def)
  have a2: "snd x \<noteq> [] \<and> list_all (\<lambda>q. pp_active (snd q)) (snd x)" if "x \<in> set (pfxs D)" for x
  proof -
    from that obtain e where e: "e \<in> set es" "x = decode_pfx pm am (pfx_record V e)"
      by (auto simp: d)
    obtain p pps where pp: "e = (p, pps)" by (cases e)
    have "active_pfx_peers pps \<noteq> []" using active_pfxs_nonempty [of e V] e(1) pp
      by (simp add: es_def)
    then show ?thesis
      by (auto simp: e(2) pp decode_pfx_def pfx_record_def list_all_iff decode_pfx_peer_def
            split: prod.splits)
  qed
  have "all_active D" unfolding all_active_def using a1 a2 by (simp add: list_all_iff)
  with c show ?thesis by (simp add: D_def)
qed

section \<open>The view after a read, whatever its outcome\<close>



lemma ntohl_mem_val_bytes: "length m = 4 \<Longrightarrow> ntohl h (mem_val h m) = from_be m"
proof -
  assume l: "length m = 4"
  have "be_bytes 4 (from_be m :: 32 word) = m" using l by (simp add: be_bytes_from_be)
  then show ?thesis using ntohl_mem_val [of h "from_be m"] by simp
qed












section \<open>What a failed read leaves in the caller's view\<close>



text \<open>
  The file that ends inside the AS number of its first peer record: the two bytes that
  came are followed in the variable by what it held, the peer is added with that AS
  number and activated, and the next iteration returns -1.
\<close>

lemma cut_asn_file_read:
  "bgpview_io_file_read u Little_endian None None None cut_asn_file (Some empty_view)
     = (Inl Return_error, [],
        Some \<lparr> view_time = 7,
               sig_store = [\<lparr>collector_str = [0x72, 0x72, 0x63],
                             peer_ip_addr = Addr_v4 0x0A000001,
                             peer_asnumber =
                               from_be ([0, 0] @ drop 2 (mem_bytes Little_endian 4
                                                          (pv_asnumber (u_peers u))))\<rparr>],
               path_store = [], peers = [(1, True)], pfxs = [] \<rparr>)"
proof -
  have l: "length ([0, 0] @ drop 2 (mem_bytes Little_endian 4 (pv_asnumber (u_peers u)))) = 4"
    by simp
  have rv: "READ_VAL32 Little_endian old [0, 0]
              = (mem_val Little_endian ([0, 0] @ drop 2 (mem_bytes Little_endian 4 old)), [])" for old
    by (simp add: READ_VAL32_def READ_VAL_def wandio_read_def numeral_2_eq_2)
  have t7: "ntohl Little_endian (mem_val Little_endian [0, 0, 0, 7]) = 7"
    by (simp add: ntohl_mem_val_bytes from_be_def)
  show ?thesis
    by (simp add: t7 cut_asn_file_def bgpview_io_file_read_def read_peers_def read_peers_body_def
          read_peer_record_def read_ip_def check_magic_def READ_VAL8_Cons READ_VAL8_Nil
          READ_VAL16_full READ_VAL32_full READ_VAL16_eof wandio_read_def for_loop.simps
          UINT16_MAX_def ask_filter_def Let_def rv ntohl_mem_val_bytes [OF l]
          from_be_def VIEW_MAGIC_def VIEW_START_MAGIC_def VIEW_PEER_END_MAGIC_def
          ntohs_def htons_def be_bytes_2 view_eval del: append.simps)
qed




section \<open>The round trip of the file codec\<close>

text \<open>
  Claim C1, as it holds. Let \<open>V\<close> be a view that the file format can carry
  (\<open>codec_wf\<close>). Then \<open>bgpview_io_file_write\<close> with no filter callback succeeds on \<open>V\<close>,
  and \<open>bgpview_io_file_read\<close> with no callbacks, on a host of the same byte order and
  whatever its uninitialised variables hold, reads the bytes written into an empty view
  to their end and returns 1; the view it leaves has
  the time of \<open>V\<close>, the signatures of the active peers of \<open>V\<close>, the active prefixes of \<open>V\<close>
  and for each of them the active pfx-peers of \<open>V\<close> by peer signature, path encoding and
  core flag, and it has nothing inactive in it. The peer ids and path indices are those
  the stores of the new view give.
\<close>

theorem file_round_trip:
  assumes "codec_wf V"
  shows "\<exists>bs V'. bgpview_io_file_write h None (Some V) = Inr bs
           \<and> (\<forall>u. bgpview_io_file_read u h None None None bs (Some empty_view)
                    = (Inr 1, [], Some V'))
           \<and> active_content V' = active_content V \<and> all_active V'"
proof -
  from file_read_decoded [OF assms, of h] obtain pm am where
    rd: "\<forall>u. bgpview_io_file_read u h None None None (wire_view h V) (Some empty_view)
               = (Inr 1, [], Some (decoded_view pm am V))"
    and pm: "\<forall>j < length (active_peers V).
               unat (active_peers V ! j) < length pm
               \<and> pm ! unat (active_peers V ! j) = word_of_nat (j + 1)"
    and am: "\<forall>k < length (path_store V).
               unat (sp_idx (path_store V ! k)) < length am
               \<and> am ! unat (sp_idx (path_store V ! k))
                   = Some \<lparr>store_index = word_of_nat k, is_core = sp_is_core (path_store V ! k)\<rparr>"
    by blast
  from decoded_view_content [OF assms pm am] rd file_write_ok [OF assms, of h]
  show ?thesis by blast
qed

text \<open>
  The round trip on \<open>one_route_view\<close> and a little-endian host: the view can be carried,
  the file is \<open>one_route_file\<close> and the view read back is \<open>one_route_decoded\<close>, in which
  the path has index 0 instead of 1.
\<close>

theorem file_round_trip_witness:
  "codec_wf one_route_view
   \<and> bgpview_io_file_write Little_endian None (Some one_route_view) = Inr one_route_file
   \<and> (\<forall>u. bgpview_io_file_read u Little_endian None None None one_route_file
               (Some empty_view)
             = (Inr 1, [], Some one_route_decoded))
   \<and> active_content one_route_decoded = active_content one_route_view
   \<and> all_active one_route_decoded"
proof -
  have wf: "codec_wf one_route_view"
    by (simp add: codec_wf_def one_route_view_def active_peers_def active_pfxs_def
          active_pfx_peers_def sig_lookup_def path_store_get_store_path_def peer_ok_def
          pfx_ok_def pfx_peer_ok_def peer_wire_ok_def path_wire_ok_def wire_peer_def
          wire_ip_def wire_magic_def be_bytes_2 be_bytes_4 VIEW_MAGIC_def
          VIEW_PEER_END_MAGIC_def BUFFER_LEN_def)
  from file_round_trip [OF wf, of Little_endian] obtain bs V' where
    r: "bgpview_io_file_write Little_endian None (Some one_route_view) = Inr bs"
       "\<forall>u. bgpview_io_file_read u Little_endian None None None bs (Some empty_view)
              = (Inr 1, [], Some V')"
       "active_content V' = active_content one_route_view" "all_active V'"
    by blast
  have bs: "bs = one_route_file"
    using r(1) one_route_view_file by (simp add: one_route_file_def)
  have "V' = one_route_decoded" using r(2) one_route_file_read by (simp add: bs)
  then show ?thesis using wf r bs one_route_file_read by simp
qed

text \<open>
  The claim as the specification has it, for every view, fails on a view with a peer that
  is not active: the writer visits the active peers only, so the file of
  \<open>inactive_peer_view\<close> has no peer record and the view read back has no peer, where
  \<open>inactive_peer_view\<close> has one.
\<close>

theorem file_round_trip_inactive_peer_counterexample:
  "bgpview_io_file_write Little_endian None (Some inactive_peer_view) = Inr inactive_peer_file
   \<and> (\<forall>u. bgpview_io_file_read u Little_endian None None None inactive_peer_file
               (Some empty_view)
             = (Inr 1, [], Some (bgpview_set_time empty_view 5)))
   \<and> view_peer_sigs inactive_peer_view
       = [Some \<lparr>collector_str = [0x72, 0x72, 0x63], peer_ip_addr = Addr_v4 0x0A000001,
                 peer_asnumber = 65001\<rparr>]
   \<and> view_peer_sigs (bgpview_set_time empty_view 5) = []"
proof -
  have w: "bgpview_io_file_write Little_endian None (Some inactive_peer_view)
             = Inr inactive_peer_file"
    by (simp add: inactive_peer_view_def inactive_peer_file_def writer_eval bytes_eval)
  have r: "\<forall>u. bgpview_io_file_read u Little_endian None None None inactive_peer_file
                  (Some empty_view)
                = (Inr 1, [], Some (bgpview_set_time empty_view 5))"
    by (simp add: inactive_peer_file_def reader_eval bytes_eval view_eval)
  have s: "view_peer_sigs inactive_peer_view
             = [Some \<lparr>collector_str = [0x72, 0x72, 0x63], peer_ip_addr = Addr_v4 0x0A000001,
                       peer_asnumber = 65001\<rparr>]"
    by (simp add: view_peer_sigs_def inactive_peer_view_def sig_lookup_def)
  have e: "view_peer_sigs (bgpview_set_time empty_view 5) = []"
    by (simp add: view_peer_sigs_def bgpview_set_time_def empty_view_def)
  from w r s e show ?thesis by blast
qed

end
